theory Spec2Isabelle
  imports Complex_Main "HOL-Library.Word" "HOL-Library.Sublist" "HOL-Library.Multiset"
begin

section \<open>Conventions of the embedding\<close>

text \<open>
  The player is written in TypeScript. A JavaScript \<^verbatim>\<open>number\<close> that holds a time, a
  duration or a rate is a \<^typ>\<open>real\<close>: a finite value with exact arithmetic, so rounding,
  \<^verbatim>\<open>NaN\<close> and the infinities are outside the embedding, and the theorems about a
  quotient assume a divisor that is not 0. A number that holds a count, an index, a level
  or a millisecond timestamp is an \<^typ>\<open>int\<close>. A string is the list of its UTF-16 code
  units, which is what \<^verbatim>\<open>.length\<close> counts. An \<^verbatim>\<open>undefined\<close> field is \<open>None\<close>.
  React state and refs are passed to a function and returned by it.
\<close>

type_synonym jsstring = "16 word list"

definition js_or :: "real \<Rightarrow> real \<Rightarrow> real" where
  \<comment> \<open>\<^verbatim>\<open>x || d\<close> on numbers: zero is falsy.\<close>
  "js_or x d = (if x = 0 then d else x)"

definition js_or_undef :: "real option \<Rightarrow> real \<Rightarrow> real" where
  \<comment> \<open>\<^verbatim>\<open>x || d\<close> where \<^verbatim>\<open>x\<close> may be undefined.\<close>
  "js_or_undef x d = (case x of None \<Rightarrow> d | Some v \<Rightarrow> js_or v d)"

fun findIndex :: "('a \<Rightarrow> bool) \<Rightarrow> 'a list \<Rightarrow> nat option" where
  \<comment> \<open>\<^verbatim>\<open>Array.prototype.findIndex\<close>; \<open>None\<close> stands for the result \<^verbatim>\<open>-1\<close>.\<close>
  "findIndex P [] = None"
| "findIndex P (x # xs) =
     (if P x then Some 0 else (case findIndex P xs of None \<Rightarrow> None | Some i \<Rightarrow> Some (Suc i)))"

section \<open>Recordings: files, segments and timeline entries\<close>

text \<open>
  The fields of \<^verbatim>\<open>StreamFile\<close> and \<^verbatim>\<open>StreamSegment\<close> that the sources read (the
  \<^verbatim>\<open>File\<close> handles are left out), and the object that the timeline builds for each
  segment. Isabelle reserves \<^verbatim>\<open>file\<close> and \<^verbatim>\<open>end\<close>, hence the primes.
\<close>

record StreamFile =
  name :: jsstring
  roomId :: jsstring
  streamerName :: jsstring
  timestamp :: int
  title :: jsstring
  ext :: jsstring

record StreamSegment =
  file' :: StreamFile
  duration :: real
  danmakuCount :: int

record TimelineEntry =
  start :: real
  end' :: real
  duration' :: real

section \<open>Player: the virtual global timeline\<close>

text \<open>
  The body of the \<^verbatim>\<open>map\<close> callback of \<^verbatim>\<open>timeline\<close> that chooses the duration of
  segment \<open>idx\<close>: the declared duration, else the distance to the next file's timestamp,
  else the measured duration, never negative.
\<close>

definition segmentDur :: "StreamSegment list \<Rightarrow> (nat \<rightharpoonup> real) \<Rightarrow> nat \<Rightarrow> real" where
  "segmentDur segments realDurations idx =
     (let seg = segments ! idx;
          dur = js_or (duration seg) 0;
          dur = (if dur = 0
                 then (if idx + 1 < length segments
                       then real_of_int (timestamp (file' (segments ! (idx + 1))) - timestamp (file' seg)) / 1000
                       else js_or_undef (realDurations idx) 0)
                 else dur)
      in if dur < 0 then 0 else dur)"

text \<open>The callback's effect on the accumulator \<^verbatim>\<open>acc\<close>, one index after the other.\<close>

fun timelineLoop :: "(nat \<Rightarrow> real) \<Rightarrow> nat list \<Rightarrow> real \<Rightarrow> TimelineEntry list" where
  "timelineLoop durOf [] acc = []"
| "timelineLoop durOf (idx # idxs) acc =
     (let dur = durOf idx; start = acc; acc = acc + dur
      in \<lparr>start = start, end' = acc, duration' = dur\<rparr> # timelineLoop durOf idxs acc)"

definition timeline :: "StreamSegment list \<Rightarrow> (nat \<rightharpoonup> real) \<Rightarrow> TimelineEntry list" where
  "timeline segments realDurations =
     timelineLoop (segmentDur segments realDurations) [0..<length segments] 0"

definition totalDuration :: "TimelineEntry list \<Rightarrow> real" where
  \<comment> \<open>\<^verbatim>\<open>timeline[timeline.length - 1]?.end || 0\<close>\<close>
  "totalDuration entries = (if entries = [] then 0 else js_or (end' (last entries)) 0)"




subsection \<open>Facts about the timeline loop\<close>

lemma js_or_zero [simp]: "js_or x 0 = x"
  by (simp add: js_or_def)

lemma segmentDur_nonneg: "0 \<le> segmentDur segments realDurations idx"
  by (simp add: segmentDur_def Let_def)

lemma timelineLoop_length [simp]: "length (timelineLoop durOf idxs acc) = length idxs"
  by (induction idxs arbitrary: acc) (simp_all add: Let_def)

lemma timelineLoop_nth_duration:
  "i < length idxs \<Longrightarrow> duration' (timelineLoop durOf idxs acc ! i) = durOf (idxs ! i)"
proof (induction idxs arbitrary: acc i)
  case Nil
  then show ?case by simp
next
  case (Cons idx idxs)
  then show ?case by (cases i) (simp_all add: Let_def)
qed

lemma timelineLoop_hd_start:
  "idxs \<noteq> [] \<Longrightarrow> start (hd (timelineLoop durOf idxs acc)) = acc"
  by (cases idxs) (simp_all add: Let_def)

lemma timelineLoop_contiguous:
  "Suc i < length idxs \<Longrightarrow>
     end' (timelineLoop durOf idxs acc ! i) = start (timelineLoop durOf idxs acc ! Suc i)"
proof (induction idxs arbitrary: acc i)
  case Nil
  then show ?case by simp
next
  case (Cons idx idxs)
  show ?case
  proof (cases i)
    case 0
    with Cons.prems obtain j js where "idxs = j # js" by (cases idxs) auto
    with 0 show ?thesis by (simp add: Let_def)
  next
    case (Suc k)
    with Cons.prems have "Suc k < length idxs" by simp
    from Cons.IH [OF this] Suc show ?thesis by (simp add: Let_def)
  qed
qed

lemma timelineLoop_last_end:
  "idxs \<noteq> [] \<Longrightarrow>
     end' (last (timelineLoop durOf idxs acc)) = acc + sum_list (map duration' (timelineLoop durOf idxs acc))"
proof (induction idxs arbitrary: acc)
  case Nil
  then show ?case by simp
next
  case (Cons idx idxs)
  show ?case
  proof (cases "idxs = []")
    case True
    then show ?thesis by (simp add: Let_def)
  next
    case False
    then have ne: "timelineLoop durOf idxs (acc + durOf idx) \<noteq> []"
      by (cases idxs) (simp_all add: Let_def)
    from Cons.IH [OF False, of "acc + durOf idx"] ne show ?thesis
      by (simp add: Let_def)
  qed
qed

lemma timeline_length [simp]: "length (timeline segments realDurations) = length segments"
  by (simp add: timeline_def)

lemma timeline_duration:
  "i < length segments \<Longrightarrow>
     duration' (timeline segments realDurations ! i) = segmentDur segments realDurations i"
  by (simp add: timeline_def timelineLoop_nth_duration)

lemma timeline_durations_nonneg:
  "0 \<le> sum_list (map duration' (timeline segments realDurations))"
proof -
  have "\<forall>e \<in> set (timeline segments realDurations). 0 \<le> duration' e"
  proof
    fix e assume "e \<in> set (timeline segments realDurations)"
    then obtain i where "i < length segments" "e = timeline segments realDurations ! i"
      by (auto simp: in_set_conv_nth)
    then show "0 \<le> duration' e" by (simp add: timeline_duration segmentDur_nonneg)
  qed
  then show ?thesis by (intro sum_list_nonneg) auto
qed

lemma segmentDur_declared:
  "0 < duration (segments ! i) \<Longrightarrow> segmentDur segments realDurations i = duration (segments ! i)"
  by (simp add: segmentDur_def Let_def)

lemma timelineLoop_Nil_iff [simp]: "timelineLoop durOf idxs acc = [] \<longleftrightarrow> idxs = []"
  by (cases idxs) (simp_all add: Let_def)

lemma findIndex_Some:
  "findIndex P xs = Some i \<Longrightarrow> i < length xs \<and> P (xs ! i) \<and> (\<forall>j<i. \<not> P (xs ! j))"
proof (induction xs arbitrary: i)
  case Nil
  then show ?case by simp
next
  case (Cons x xs)
  show ?case
  proof (cases "P x")
    case True
    with Cons.prems show ?thesis by simp
  next
    case False
    with Cons.prems obtain k where k: "findIndex P xs = Some k" "i = Suc k"
      by (auto split: option.splits)
    from Cons.IH [OF k(1)] False k(2) show ?thesis
      by (auto simp: less_Suc_eq_0_disj)
  qed
qed

lemma findIndex_None: "findIndex P xs = None \<Longrightarrow> \<forall>x \<in> set xs. \<not> P x"
  by (induction xs) (auto split: if_splits option.splits)



text \<open>A session of three segments whose middle one declares no duration.\<close>

definition mkFile :: "int \<Rightarrow> StreamFile" where
  "mkFile ts = \<lparr>name = [], roomId = [], streamerName = [], timestamp = ts, title = [], ext = []\<rparr>"

definition demoSegments :: "StreamSegment list" where
  "demoSegments =
     [\<lparr>file' = mkFile 0, duration = 1800, danmakuCount = 0\<rparr>,
      \<lparr>file' = mkFile 1800000, duration = 0, danmakuCount = 0\<rparr>,
      \<lparr>file' = mkFile 3620000, duration = 1500, danmakuCount = 0\<rparr>]"

lemma demo_timeline:
  "timeline demoSegments Map.empty =
     [\<lparr>start = 0, end' = 1800, duration' = 1800\<rparr>,
      \<lparr>start = 1800, end' = 3620, duration' = 1820\<rparr>,
      \<lparr>start = 3620, end' = 5120, duration' = 1500\<rparr>]"
  by (simp add: timeline_def segmentDur_def demoSegments_def mkFile_def Let_def js_or_undef_def)

section \<open>Claims about the timeline\<close>

text \<open>
  C1 (timeline contiguity). For every list of segments, the derived entries start at 0,
  each entry ends where the next one starts, and the last entry ends at the sum of the
  entries' durations, which is also the reported total duration. The duration of an entry
  is the one the callback chooses for its segment; it is the declared duration whenever
  that is positive, so that the total is the sum of the declared durations when all of them
  are positive.
\<close>

theorem timeline_contiguous:
  fixes segments :: "StreamSegment list" and realDurations :: "nat \<rightharpoonup> real"
  defines "entries \<equiv> timeline segments realDurations"
  shows "(segments \<noteq> [] \<longrightarrow> start (hd entries) = 0)
       \<and> (\<forall>i. Suc i < length segments \<longrightarrow> end' (entries ! i) = start (entries ! Suc i))
       \<and> (segments \<noteq> [] \<longrightarrow> end' (last entries) = sum_list (map duration' entries))
       \<and> totalDuration entries = sum_list (map duration' entries)
       \<and> length entries = length segments
       \<and> (\<forall>i < length segments. duration' (entries ! i) = segmentDur segments realDurations i)
       \<and> (\<forall>i < length segments. 0 < duration (segments ! i) \<longrightarrow> duration' (entries ! i) = duration (segments ! i))
       \<and> ((\<forall>s \<in> set segments. 0 < duration s) \<longrightarrow>
            totalDuration entries = sum_list (map duration segments))"
proof -
  have ne: "segments \<noteq> [] \<Longrightarrow> [0..<length segments] \<noteq> []" by simp
  have a: "segments \<noteq> [] \<longrightarrow> start (hd entries) = 0"
    using ne by (simp add: entries_def timeline_def timelineLoop_hd_start)
  have b: "\<forall>i. Suc i < length segments \<longrightarrow> end' (entries ! i) = start (entries ! Suc i)"
    by (simp add: entries_def timeline_def timelineLoop_contiguous)
  have c: "segments \<noteq> [] \<longrightarrow> end' (last entries) = sum_list (map duration' entries)"
    using timelineLoop_last_end [OF ne, of "segmentDur segments realDurations" 0]
    by (simp add: entries_def timeline_def)
  have d: "totalDuration entries = sum_list (map duration' entries)"
  proof (cases "segments = []")
    case True
    then show ?thesis by (simp add: totalDuration_def entries_def timeline_def)
  next
    case False
    moreover have "length entries = length segments" by (simp add: entries_def)
    ultimately have "entries \<noteq> []" by (cases entries) simp_all
    with c False show ?thesis by (simp add: totalDuration_def)
  qed
  have e: "\<forall>i < length segments. duration' (entries ! i) = segmentDur segments realDurations i"
    by (simp add: entries_def timeline_duration)
  have f: "\<forall>i < length segments. 0 < duration (segments ! i) \<longrightarrow> duration' (entries ! i) = duration (segments ! i)"
    by (simp add: entries_def timeline_duration segmentDur_declared)
  have g: "(\<forall>s \<in> set segments. 0 < duration s) \<longrightarrow>
            totalDuration entries = sum_list (map duration segments)"
  proof
    assume pos: "\<forall>s \<in> set segments. 0 < duration s"
    have "map duration' entries = map duration segments"
    proof (rule nth_equalityI)
      show "length (map duration' entries) = length (map duration segments)"
        by (simp add: entries_def)
    next
      fix i assume "i < length (map duration' entries)"
      then have i: "i < length segments" by (simp add: entries_def)
      with pos have "0 < duration (segments ! i)" by simp
      with f i have "duration' (entries ! i) = duration (segments ! i)" by simp
      with i show "map duration' entries ! i = map duration segments ! i"
        by (simp add: entries_def)
    qed
    with d show "totalDuration entries = sum_list (map duration segments)" by simp
  qed
  from a b c d e f g show ?thesis by (simp add: entries_def)
qed

theorem timeline_contiguous_witness:
  "start (hd (timeline demoSegments Map.empty)) = 0
   \<and> end' (timeline demoSegments Map.empty ! 0) = start (timeline demoSegments Map.empty ! 1)
   \<and> end' (timeline demoSegments Map.empty ! 1) = start (timeline demoSegments Map.empty ! 2)
   \<and> end' (last (timeline demoSegments Map.empty)) = 5120
   \<and> totalDuration (timeline demoSegments Map.empty) = 5120"
  using timeline_contiguous [of demoSegments Map.empty]
  by (simp add: demo_timeline totalDuration_def)



section \<open>DanmakuLayer: the overlay's visible set\<close>

text \<open>
  A chat event, the overlay settings and the filter settings, as \<^verbatim>\<open>DanmakuLayer\<close> and
  \<^verbatim>\<open>ChatList\<close> declare or read them (\<^verbatim>\<open>type\<close>, \<^verbatim>\<open>size\<close> and
  \<^verbatim>\<open>show\<close> carry a prime or a suffix).
  \<^verbatim>\<open>String.prototype.toLowerCase\<close> is a parameter \<open>lc\<close> of the model;
  \<open>asciiLower\<close> is the instance used on concrete inputs.
\<close>

record 'n DanmakuItemOf =
  time :: 'n
  type' :: int
  size' :: int
  color :: int
  timestamp :: int
  pool :: int
  uid :: jsstring
  rowId :: jsstring
  content :: jsstring
  senderName :: jsstring
  medalName :: "jsstring option"
  medalLevel :: "int option"
  medalColorBorder :: "jsstring option"
  trackIndex :: int
  emots :: "(jsstring \<times> jsstring) list option"
  stickerUrl :: "jsstring option"

type_synonym DanmakuItem = "real DanmakuItemOf"

record DanmakuSettings =
  show' :: bool
  opacity :: real
  size_s :: real
  speed :: real
  playbackRate :: real
  longPressRate :: real

record FilterSettings =
  medalFilterEnabled :: bool
  minMedalLevel :: int
  blockedKeywords :: "jsstring list"

text \<open>
  \<^verbatim>\<open>String.prototype.includes\<close>, and the two filter rules that the scan loop and the
  sidebar share: the medal rule \<^verbatim>\<open>medalFilterEnabled && (d.medalLevel || 0) < minMedalLevel\<close>
  and the keyword rule over the lower-cased content.
\<close>

fun includes_js :: "'a list \<Rightarrow> 'a list \<Rightarrow> bool" where
  "includes_js [] k = (k = [])"
| "includes_js (c # cs) k = (prefix k (c # cs) \<or> includes_js cs k)"

definition medalBlocked :: "FilterSettings \<Rightarrow> DanmakuItem \<Rightarrow> bool" where
  "medalBlocked fs d =
     (medalFilterEnabled fs \<and> (case medalLevel d of None \<Rightarrow> 0 | Some l \<Rightarrow> l) < minMedalLevel fs)"

definition keywordBlocked :: "(jsstring \<Rightarrow> jsstring) \<Rightarrow> FilterSettings \<Rightarrow> DanmakuItem \<Rightarrow> bool" where
  "keywordBlocked lc fs d =
     (length (blockedKeywords fs) > 0 \<and>
       (let content = lc (content d) in list_ex (\<lambda>k. includes_js content (lc k)) (blockedKeywords fs)))"

text \<open>
  The per-event lifetime computed in the scan loop: \<^verbatim>\<open>len\<close>, \<^verbatim>\<open>clampedLen\<close>,
  \<^verbatim>\<open>ratio\<close>, \<^verbatim>\<open>intrinsicFactor\<close> and \<^verbatim>\<open>actualDuration\<close>, with
  \<^verbatim>\<open>BASE_DURATION = 16\<close>.
\<close>

definition clampedLenOf :: "DanmakuItem \<Rightarrow> int" where
  "clampedLenOf d =
     (let len = (if length (content d) = 0 then 1 else int (length (content d)))
      in if len > 10 then 10 else (if len < 1 then 1 else len))"

definition intrinsicFactorOf :: "DanmakuItem \<Rightarrow> real" where
  "intrinsicFactorOf d =
     (let ratio = real_of_int (clampedLenOf d - 1) * 0.1111
      in 1.0 - (ratio * 0.25))"

definition actualDurationOf :: "real \<Rightarrow> DanmakuItem \<Rightarrow> real" where
  "actualDurationOf spd d = 16 / (spd * intrinsicFactorOf d)"

text \<open>
  The \<^verbatim>\<open>while\<close> loop that advances the cursor, the \<^verbatim>\<open>for\<close> loop that collects
  the events from the cursor on (with its \<^verbatim>\<open>break\<close> and its two \<^verbatim>\<open>continue\<close>), and
  the body of the memo \<^verbatim>\<open>activeOverlayDanmaku\<close>. The memo returns the new value of
  \<^verbatim>\<open>searchStartIndexRef.current\<close> and the result array, whose elements are the events
  paired with their \<^verbatim>\<open>actualDuration\<close>.
\<close>

function advanceCursor :: "DanmakuItem list \<Rightarrow> real \<Rightarrow> nat \<Rightarrow> nat" where
  "advanceCursor danmakuData startTimeWindow startIndex =
     (if int startIndex < int (length danmakuData) - 1 \<and> time (danmakuData ! startIndex) < startTimeWindow
      then advanceCursor danmakuData startTimeWindow (startIndex + 1)
      else startIndex)"
  by pat_completeness auto
termination
  by (relation "measure (\<lambda>(xs, w, i). length xs - i)") auto

declare advanceCursor.simps [simp del]

fun collectFrom ::
  "(jsstring \<Rightarrow> jsstring) \<Rightarrow> DanmakuSettings \<Rightarrow> FilterSettings \<Rightarrow> real \<Rightarrow> DanmakuItem list
     \<Rightarrow> (DanmakuItem \<times> real) list" where
  "collectFrom lc ds fs smoothTime [] = []"
| "collectFrom lc ds fs smoothTime (d # rest) =
     (if time d > smoothTime + 0.5 then []
      else (let actualDuration = actualDurationOf (speed ds) d
            in if time d \<ge> smoothTime - actualDuration
               then (if medalBlocked fs d then collectFrom lc ds fs smoothTime rest
                     else if keywordBlocked lc fs d then collectFrom lc ds fs smoothTime rest
                     else (d, actualDuration) # collectFrom lc ds fs smoothTime rest)
               else collectFrom lc ds fs smoothTime rest))"

definition activeOverlayDanmaku ::
  "(jsstring \<Rightarrow> jsstring) \<Rightarrow> bool \<Rightarrow> DanmakuItem list \<Rightarrow> DanmakuSettings \<Rightarrow> FilterSettings
     \<Rightarrow> real \<Rightarrow> nat \<Rightarrow> nat \<times> (DanmakuItem \<times> real) list" where
  "activeOverlayDanmaku lc shw danmakuData ds fs smoothTime searchStartIndex =
     (if \<not> shw \<or> length danmakuData = 0 then (searchStartIndex, [])
      else
        (let maxDuration = 16 / (speed ds * 0.75);
             startTimeWindow = smoothTime - maxDuration;
             startIndex = searchStartIndex;
             startIndex = (if startIndex < length danmakuData
                              \<and> time (danmakuData ! startIndex) > startTimeWindow + 10
                           then 0 else startIndex);
             startIndex = advanceCursor danmakuData startTimeWindow startIndex
         in (startIndex, collectFrom lc ds fs smoothTime (drop startIndex danmakuData))))"

text \<open>Lower-casing of the ASCII letters, and builders for concrete inputs.\<close>

definition asciiLower :: "jsstring \<Rightarrow> jsstring" where
  "asciiLower s = map (\<lambda>c. if 0x41 \<le> c \<and> c \<le> 0x5A then c + 0x20 else c) s"

definition mkItem :: "real \<Rightarrow> jsstring \<Rightarrow> int option \<Rightarrow> DanmakuItem" where
  "mkItem t c lvl = \<lparr>time = t, type' = 1, size' = 25, color = 16777215, timestamp = 0, pool = 0,
     uid = [], rowId = [], content = c, senderName = [], medalName = None, medalLevel = lvl,
     medalColorBorder = None, trackIndex = 0, emots = None, stickerUrl = None\<rparr>"

definition mkSettings :: "real \<Rightarrow> DanmakuSettings" where
  "mkSettings spd = \<lparr>show' = True, opacity = 1, size_s = 1, speed = spd, playbackRate = 1, longPressRate = 2\<rparr>"

definition noFilter :: FilterSettings where
  "noFilter = \<lparr>medalFilterEnabled = False, minMedalLevel = 0, blockedKeywords = []\<rparr>"

text \<open>
  Running the memo over successive frames: the cursor \<^verbatim>\<open>searchStartIndexRef\<close> that a
  frame leaves is the one the next frame starts from.
\<close>

fun overlayFrames ::
  "(jsstring \<Rightarrow> jsstring) \<Rightarrow> bool \<Rightarrow> DanmakuItem list \<Rightarrow> DanmakuSettings \<Rightarrow> FilterSettings
     \<Rightarrow> nat \<Rightarrow> real list \<Rightarrow> (DanmakuItem \<times> real) list list" where
  "overlayFrames lc shw xs ds fs c [] = []"
| "overlayFrames lc shw xs ds fs c (now # nows) =
     (case activeOverlayDanmaku lc shw xs ds fs now c of
        (c', result) \<Rightarrow> result # overlayFrames lc shw xs ds fs c' nows)"

subsection \<open>What the scan computes\<close>

text \<open>
  The condition under which the scan loop pushes an event, the earliest time the cursor
  loop compares against, and two properties of a cursor: every event before it is older
  than the window (fresh), or the frame resets it.
\<close>

definition visibleAt ::
  "(jsstring \<Rightarrow> jsstring) \<Rightarrow> DanmakuSettings \<Rightarrow> FilterSettings \<Rightarrow> real \<Rightarrow> DanmakuItem \<Rightarrow> bool" where
  "visibleAt lc ds fs now d =
     (time d \<le> now + 0.5 \<and> time d \<ge> now - actualDurationOf (speed ds) d
        \<and> \<not> medalBlocked fs d \<and> \<not> keywordBlocked lc fs d)"

definition startTimeWindowOf :: "DanmakuSettings \<Rightarrow> real \<Rightarrow> real" where
  "startTimeWindowOf ds now = now - 16 / (speed ds * 0.75)"

definition cursorFresh :: "DanmakuItem list \<Rightarrow> real \<Rightarrow> nat \<Rightarrow> bool" where
  "cursorFresh danmakuData w c = (\<forall>i<c. i < length danmakuData \<longrightarrow> time (danmakuData ! i) < w)"

definition resetFires :: "DanmakuItem list \<Rightarrow> real \<Rightarrow> nat \<Rightarrow> bool" where
  "resetFires danmakuData w c = (c < length danmakuData \<and> time (danmakuData ! c) > w + 10)"

text \<open>
  Concrete inputs.
\<close>

definition oneChar :: jsstring where "oneChar = [0x61]"

definition tenChars :: jsstring where
  "tenChars = [0x61, 0x62, 0x63, 0x64, 0x65, 0x66, 0x67, 0x68, 0x69, 0x6A]"

definition demoEvent :: DanmakuItem where "demoEvent = mkItem 5 oneChar None"

definition demoPairLong :: "DanmakuItem list" where
  "demoPairLong = [mkItem 77 tenChars None, mkItem 80 oneChar None]"


definition demoPair :: "DanmakuItem list" where
  "demoPair = [mkItem 77 oneChar None, mkItem 80 oneChar None]"

lemma clampedLenOf_range: "1 \<le> clampedLenOf d \<and> clampedLenOf d \<le> 10"
  by (simp add: clampedLenOf_def Let_def)

lemma clampedLenOf_eq: "clampedLenOf d = int (max 1 (min 10 (length (content d))))"
  by (cases "content d") (auto simp: clampedLenOf_def Let_def max_def min_def)

lemma intrinsicFactorOf_bounds: "0.75 < intrinsicFactorOf d \<and> intrinsicFactorOf d \<le> 1"
proof -
  from clampedLenOf_range [of d]
  have "real_of_int (clampedLenOf d - 1) \<le> 9" "0 \<le> real_of_int (clampedLenOf d - 1)"
    by simp_all
  then show ?thesis by (simp add: intrinsicFactorOf_def Let_def)
qed

lemma actualDurationOf_le_max:
  assumes "0 < spd"
  shows "actualDurationOf spd d \<le> 16 / (spd * 0.75)"
proof -
  from intrinsicFactorOf_bounds [of d] assms have "spd * 0.75 \<le> spd * intrinsicFactorOf d"
    by simp
  moreover from assms have "0 < spd * 0.75" by simp
  ultimately have "16 / (spd * intrinsicFactorOf d) \<le> 16 / (spd * 0.75)"
    by (intro divide_left_mono) (simp_all add: zero_less_mult_iff)
  then show ?thesis by (simp add: actualDurationOf_def)
qed

lemma actualDurationOf_formula:
  "actualDurationOf spd d =
     16 / (spd * (1 - 0.25 * (0.1111 * (real (max 1 (min 10 (length (content d)))) - 1))))"
proof -
  have "real_of_int (clampedLenOf d - 1) = real (max 1 (min 10 (length (content d)))) - 1"
    by (simp only: clampedLenOf_eq of_int_diff of_int_of_nat_eq of_int_1)
  then have "intrinsicFactorOf d = 1 - 0.25 * (0.1111 * (real (max 1 (min 10 (length (content d)))) - 1))"
    by (simp add: intrinsicFactorOf_def Let_def)
  then show ?thesis by (simp only: actualDurationOf_def)
qed

lemma collectFrom_sorted:
  "sorted (map time xs) \<Longrightarrow>
     collectFrom lc ds fs now xs =
       map (\<lambda>d. (d, actualDurationOf (speed ds) d)) (filter (visibleAt lc ds fs now) xs)"
proof (induction xs)
  case Nil
  then show ?case by simp
next
  case (Cons d rest)
  then have srt: "sorted (map time rest)" and later: "\<forall>e \<in> set rest. time d \<le> time e"
    by simp_all
  show ?case
  proof (cases "time d > now + 0.5")
    case True
    with later have "\<forall>e \<in> set (d # rest). \<not> visibleAt lc ds fs now e"
      by (auto simp: visibleAt_def)
    then have "filter (visibleAt lc ds fs now) (d # rest) = []"
      by (simp only: filter_empty_conv)
    with True show ?thesis by simp
  next
    case False
    with Cons.IH [OF srt] show ?thesis
      by (simp add: Let_def visibleAt_def)
  qed
qed

lemma collectFrom_durations:
  "(d, dur) \<in> set (collectFrom lc ds fs now xs) \<Longrightarrow> dur = actualDurationOf (speed ds) d"
  by (induction xs) (auto simp: Let_def split: if_splits)

lemma overlay_durations:
  "(d, dur) \<in> set (snd (activeOverlayDanmaku lc shw xs ds fs now c)) \<Longrightarrow>
     dur = actualDurationOf (speed ds) d"
  by (auto simp: activeOverlayDanmaku_def Let_def split: if_splits dest: collectFrom_durations)

lemma advanceCursor_ge: "i \<le> advanceCursor xs w i"
proof (induction xs w i rule: advanceCursor.induct)
  case (1 xs w i)
  show ?case
  proof (cases "int i < int (length xs) - 1 \<and> time (xs ! i) < w")
    case True
    with 1 have "i + 1 \<le> advanceCursor xs w (i + 1)" by simp
    with True show ?thesis by (subst advanceCursor.simps) simp
  next
    case False
    then show ?thesis by (subst advanceCursor.simps) auto
  qed
qed

lemma advanceCursor_skipped:
  "i \<le> k \<Longrightarrow> k < advanceCursor xs w i \<Longrightarrow> time (xs ! k) < w"
proof (induction xs w i rule: advanceCursor.induct)
  case (1 xs w i)
  show ?case
  proof (cases "int i < int (length xs) - 1 \<and> time (xs ! i) < w")
    case True
    then have eq: "advanceCursor xs w i = advanceCursor xs w (i + 1)"
      by (subst advanceCursor.simps) simp
    show ?thesis
    proof (cases "k = i")
      case True
      with \<open>int i < int (length xs) - 1 \<and> time (xs ! i) < w\<close> show ?thesis by simp
    next
      case False
      with "1.prems" have "i + 1 \<le> k" by simp
      from "1.IH" [OF True this] "1.prems"(2) eq show ?thesis by simp
    qed
  next
    case False
    then have "advanceCursor xs w i = i" by (subst advanceCursor.simps) auto
    with "1.prems" show ?thesis by simp
  qed
qed

lemma advanceCursor_fresh:
  "cursorFresh xs w i \<Longrightarrow> cursorFresh xs w (advanceCursor xs w i)"
  unfolding cursorFresh_def
  by (metis advanceCursor_skipped not_le_imp_less)

lemma filter_drop_skipped:
  "(\<forall>k<j. k < length xs \<longrightarrow> \<not> P (xs ! k)) \<Longrightarrow> filter P (drop j xs) = filter P xs"
proof -
  assume a: "\<forall>k<j. k < length xs \<longrightarrow> \<not> P (xs ! k)"
  have "\<forall>x \<in> set (take j xs). \<not> P x"
  proof
    fix x assume "x \<in> set (take j xs)"
    then obtain k where "k < length (take j xs)" "x = take j xs ! k"
      by (auto simp: in_set_conv_nth)
    with a show "\<not> P x" by simp
  qed
  then have "filter P (take j xs) = []" by (simp only: filter_empty_conv)
  moreover have "filter P xs = filter P (take j xs) @ filter P (drop j xs)"
    by (metis append_take_drop_id filter_append)
  ultimately show ?thesis by simp
qed

lemma fresh_not_visible:
  assumes "0 < speed ds" "cursorFresh xs (startTimeWindowOf ds now) j"
  shows "\<forall>k<j. k < length xs \<longrightarrow> \<not> visibleAt lc ds fs now (xs ! k)"
proof (intro allI impI)
  fix k assume "k < j" "k < length xs"
  with assms(2) have "time (xs ! k) < now - 16 / (speed ds * 0.75)"
    by (simp add: cursorFresh_def startTimeWindowOf_def)
  moreover have "actualDurationOf (speed ds) (xs ! k) \<le> 16 / (speed ds * 0.75)"
    by (rule actualDurationOf_le_max [OF assms(1)])
  ultimately show "\<not> visibleAt lc ds fs now (xs ! k)"
    by (simp add: visibleAt_def)
qed

text \<open>
  The frame's result when the cursor it starts the scan from is fresh.
\<close>

lemma overlay_result:
  assumes "shw" "sorted (map time xs)" "0 < speed ds"
    and "resetFires xs (startTimeWindowOf ds now) c \<or> cursorFresh xs (startTimeWindowOf ds now) c"
  shows "snd (activeOverlayDanmaku lc shw xs ds fs now c) =
           map (\<lambda>d. (d, actualDurationOf (speed ds) d)) (filter (visibleAt lc ds fs now) xs)"
    and "cursorFresh xs (startTimeWindowOf ds now) (fst (activeOverlayDanmaku lc shw xs ds fs now c))"
proof -
  define w where "w = startTimeWindowOf ds now"
  define c0 where "c0 = (if c < length xs \<and> time (xs ! c) > w + 10 then 0 else c)"
  define j where "j = advanceCursor xs w c0"
  have fresh0: "cursorFresh xs w c0"
    using assms(4) by (auto simp: c0_def w_def resetFires_def cursorFresh_def)
  then have freshj: "cursorFresh xs w j"
    unfolding j_def by (rule advanceCursor_fresh)
  show "snd (activeOverlayDanmaku lc shw xs ds fs now c) =
           map (\<lambda>d. (d, actualDurationOf (speed ds) d)) (filter (visibleAt lc ds fs now) xs)"
  proof (cases "xs = []")
    case True
    then show ?thesis by (simp add: activeOverlayDanmaku_def)
  next
    case False
    then have "snd (activeOverlayDanmaku lc shw xs ds fs now c) = collectFrom lc ds fs now (drop j xs)"
      using assms(1)
      by (simp add: activeOverlayDanmaku_def Let_def j_def c0_def w_def startTimeWindowOf_def)
    also have "\<dots> = map (\<lambda>d. (d, actualDurationOf (speed ds) d))
                        (filter (visibleAt lc ds fs now) (drop j xs))"
      using assms(2) by (intro collectFrom_sorted) (simp add: drop_map [symmetric] sorted_wrt_drop)
    also have "filter (visibleAt lc ds fs now) (drop j xs) = filter (visibleAt lc ds fs now) xs"
      using fresh_not_visible [OF assms(3), of xs now j lc fs] freshj
      by (intro filter_drop_skipped) (simp add: w_def)
    finally show ?thesis .
  qed
  show "cursorFresh xs (startTimeWindowOf ds now) (fst (activeOverlayDanmaku lc shw xs ds fs now c))"
  proof (cases "xs = []")
    case True
    then show ?thesis by (simp add: cursorFresh_def)
  next
    case False
    then have "fst (activeOverlayDanmaku lc shw xs ds fs now c) = j"
      using assms(1)
      by (simp add: activeOverlayDanmaku_def Let_def j_def c0_def w_def startTimeWindowOf_def)
    with freshj show ?thesis by (simp add: w_def)
  qed
qed

lemma demo_tenChars_frame:
  "snd (activeOverlayDanmaku asciiLower True [mkItem 5 tenChars None] (mkSettings 1) noFilter 5 0)
     = [(mkItem 5 tenChars None, 640000 / 30001)]"
  by (simp add: activeOverlayDanmaku_def advanceCursor.simps Let_def mkItem_def mkSettings_def
      noFilter_def tenChars_def actualDurationOf_def intrinsicFactorOf_def clampedLenOf_def medalBlocked_def keywordBlocked_def)

lemma demoPairLong_frames:
  "activeOverlayDanmaku asciiLower True demoPairLong (mkSettings 1) noFilter 100 0 = (1, [])"
  "activeOverlayDanmaku asciiLower True demoPairLong (mkSettings 0.75) noFilter 100 1
     = (1, [(mkItem 80 oneChar None, 64 / 3)])"
  "activeOverlayDanmaku asciiLower True demoPairLong (mkSettings 0.75) noFilter 100 0
     = (0, [(mkItem 77 tenChars None, 2560000 / 90003), (mkItem 80 oneChar None, 64 / 3)])"
  by (simp_all add: activeOverlayDanmaku_def advanceCursor.simps Let_def mkItem_def mkSettings_def
      noFilter_def oneChar_def tenChars_def demoPairLong_def actualDurationOf_def intrinsicFactorOf_def
      clampedLenOf_def medalBlocked_def keywordBlocked_def)

lemma demoPair_frames_full:
  "activeOverlayDanmaku asciiLower True demoPair (mkSettings 1) noFilter 100 0 = (1, [])"
  "activeOverlayDanmaku asciiLower True demoPair (mkSettings 1) noFilter 92 1
     = (1, [(mkItem 80 oneChar None, 16)])"
  "activeOverlayDanmaku asciiLower True demoPair (mkSettings 1) noFilter 92 0
     = (0, [(mkItem 77 oneChar None, 16), (mkItem 80 oneChar None, 16)])"
  by (simp_all add: activeOverlayDanmaku_def advanceCursor.simps Let_def mkItem_def mkSettings_def
      noFilter_def oneChar_def demoPair_def actualDurationOf_def intrinsicFactorOf_def
      clampedLenOf_def medalBlocked_def keywordBlocked_def)

text \<open>
  When the cursor is fresh or reset, the frame started from it returns what the frame
  started from index 0 returns; this is the case along frames whose times do not decrease,
  with the speed unchanged, started from cursor 0.
\<close>

lemma fresh_cursor_scan_is_full_scan:
  assumes "sorted (map time xs)" and "0 < speed ds"
  shows "(resetFires xs (startTimeWindowOf ds now) c \<or> cursorFresh xs (startTimeWindowOf ds now) c \<longrightarrow>
            snd (activeOverlayDanmaku lc shw xs ds fs now c) = snd (activeOverlayDanmaku lc shw xs ds fs now 0))
       \<and> (sorted nows \<longrightarrow>
            overlayFrames lc shw xs ds fs 0 nows = map (\<lambda>now. snd (activeOverlayDanmaku lc shw xs ds fs now 0)) nows)"
proof (intro conjI impI)
  have fresh0: "\<And>w. cursorFresh xs w 0" by (simp add: cursorFresh_def)
  show one: "snd (activeOverlayDanmaku lc shw xs ds fs now c) = snd (activeOverlayDanmaku lc shw xs ds fs now 0)"
    if "resetFires xs (startTimeWindowOf ds now) c \<or> cursorFresh xs (startTimeWindowOf ds now) c" for now c
  proof (cases shw)
    case True
    from overlay_result(1) [OF True assms that]
      overlay_result(1) [OF True assms disjI2, OF fresh0]
    show ?thesis by simp
  next
    case False
    then show ?thesis by (simp add: activeOverlayDanmaku_def)
  qed
  have step: "cursorFresh xs (startTimeWindowOf ds now) (fst (activeOverlayDanmaku lc shw xs ds fs now c))"
    if "cursorFresh xs (startTimeWindowOf ds now) c" for now c
  proof (cases shw)
    case True
    from overlay_result(2) [OF True assms disjI2, OF that] show ?thesis .
  next
    case False
    with that show ?thesis by (simp add: activeOverlayDanmaku_def)
  qed
  have mono: "cursorFresh xs (startTimeWindowOf ds b) k"
    if "cursorFresh xs (startTimeWindowOf ds a) k" "a \<le> b" for a b k
    using that by (fastforce simp: cursorFresh_def startTimeWindowOf_def)
  have frames: "overlayFrames lc shw xs ds fs k ns = map (\<lambda>now. snd (activeOverlayDanmaku lc shw xs ds fs now 0)) ns"
    if "sorted ns" "\<forall>n \<in> set ns. cursorFresh xs (startTimeWindowOf ds n) k" for ns k
    using that
  proof (induction ns arbitrary: k)
    case Nil
    then show ?case by simp
  next
    case (Cons n ns)
    obtain k' r where kr: "activeOverlayDanmaku lc shw xs ds fs n k = (k', r)"
      by (cases "activeOverlayDanmaku lc shw xs ds fs n k")
    from Cons.prems(2) have fk: "cursorFresh xs (startTimeWindowOf ds n) k" by simp
    from one [OF disjI2, OF fk] kr have r: "r = snd (activeOverlayDanmaku lc shw xs ds fs n 0)" by simp
    from step [OF fk] kr have fk': "cursorFresh xs (startTimeWindowOf ds n) k'" by simp
    from Cons.prems(1) have "sorted ns" by simp
    moreover have "\<forall>m \<in> set ns. cursorFresh xs (startTimeWindowOf ds m) k'"
    proof
      fix m assume "m \<in> set ns"
      with Cons.prems(1) have "n \<le> m" by simp
      from mono [OF fk' this] show "cursorFresh xs (startTimeWindowOf ds m) k'" .
    qed
    ultimately have "overlayFrames lc shw xs ds fs k' ns =
        map (\<lambda>now. snd (activeOverlayDanmaku lc shw xs ds fs now 0)) ns"
      by (rule Cons.IH)
    with kr r show ?case by simp
  qed
  show "overlayFrames lc shw xs ds fs 0 nows = map (\<lambda>now. snd (activeOverlayDanmaku lc shw xs ds fs now 0)) nows"
    if "sorted nows"
    using frames [OF that] fresh0 by simp
qed

section \<open>Claims about the overlay\<close>

text \<open>
  C9 (rendered duration), as the code computes it. For every event that a frame renders,
  the duration attached to it is \<open>16 / (speed \<times> intrinsicFactor)\<close> with
  \<open>intrinsicFactor = 1 - 0.25 \<times> (0.1111 \<times> (clampedLen - 1))\<close> and \<open>clampedLen\<close> the
  content length clamped to \<open>[1, 10]\<close>. The source multiplies by the literal 0.1111 where
  the claim divides by 9.
\<close>

theorem rendered_duration_formula:
  assumes "speed ds \<noteq> 0"
    and "(d, dur) \<in> set (snd (activeOverlayDanmaku lc shw xs ds fs now c))"
  shows "dur = 16 / (speed ds * (1 - 0.25 * (0.1111 * (real (max 1 (min 10 (length (content d)))) - 1))))"
  using overlay_durations [OF assms(2)] by (simp only: actualDurationOf_formula)

theorem rendered_duration_formula_witness:
  "speed (mkSettings 1) \<noteq> 0
   \<and> (mkItem 5 tenChars None, 640000 / 30001) \<in>
        set (snd (activeOverlayDanmaku asciiLower True [mkItem 5 tenChars None] (mkSettings 1) noFilter 5 0))
   \<and> (640000 / 30001 :: real) = 16 / (1 * (1 - 0.25 * (0.1111 * (10 - 1))))"
proof -
  have h1: "speed (mkSettings 1) \<noteq> 0" by (simp add: mkSettings_def)
  have h2: "(mkItem 5 tenChars None, 640000 / 30001) \<in>
        set (snd (activeOverlayDanmaku asciiLower True [mkItem 5 tenChars None] (mkSettings 1) noFilter 5 0))"
    by (simp add: demo_tenChars_frame)
  from rendered_duration_formula [OF h1 h2] h1 h2 show ?thesis
    by (simp add: mkSettings_def)
qed

text \<open>
  With ten characters at speed 1 the frame attaches \<open>640000 / 30001\<close>, which is not the
  value \<open>16 / (1 - 0.25 \<times> 9 / 9)\<close> of the claim's formula.
\<close>

theorem rendered_duration_ninth_counterexample:
  "(mkItem 5 tenChars None, 640000 / 30001) \<in>
        set (snd (activeOverlayDanmaku asciiLower True [mkItem 5 tenChars None] (mkSettings 1) noFilter 5 0))
   \<and> (640000 / 30001 :: real) \<noteq>
        16 / (speed (mkSettings 1) * (1 - 0.25 * (real (max 1 (min 10 (length (content (mkItem 5 tenChars None))))) - 1) / 9))"
  by (simp add: demo_tenChars_frame) (simp add: mkItem_def mkSettings_def tenChars_def)

text \<open>
  C3 (visibility window), as the code computes it. On a time-sorted sequence, with the
  overlay shown, a positive speed and a cursor that is fresh or reset, an event is in the
  rendered set exactly when \<open>time \<le> now + 0.5\<close> (the scan's lookahead),
  \<open>time \<ge> now - duration\<close>, and it passes the medal and keyword filters.
\<close>

theorem overlay_visible_iff:
  assumes "shw" and "sorted (map time xs)" and "0 < speed ds"
    and "resetFires xs (startTimeWindowOf ds now) c \<or> cursorFresh xs (startTimeWindowOf ds now) c"
  shows "(d, dur) \<in> set (snd (activeOverlayDanmaku lc shw xs ds fs now c)) \<longleftrightarrow>
           d \<in> set xs \<and> dur = actualDurationOf (speed ds) d
           \<and> time d \<le> now + 0.5 \<and> time d \<ge> now - dur
           \<and> \<not> medalBlocked fs d \<and> \<not> keywordBlocked lc fs d"
  unfolding overlay_result(1) [OF assms]
  by (auto simp: visibleAt_def)

text \<open>
  The event with time 5 and duration 2 (one character at speed 8) is in the set at
  \<open>now = 6.9\<close> and at \<open>now = 4.9\<close>, and not at \<open>now = 7.1\<close> or \<open>now = 4.4\<close>.
\<close>

theorem overlay_visible_iff_witness:
  "sorted (map time [demoEvent]) \<and> 0 < speed (mkSettings 8)
   \<and> cursorFresh [demoEvent] (startTimeWindowOf (mkSettings 8) 6.9) 0
   \<and> (demoEvent, 2) \<in> set (snd (activeOverlayDanmaku asciiLower True [demoEvent] (mkSettings 8) noFilter 6.9 0))
   \<and> (demoEvent, 2) \<notin> set (snd (activeOverlayDanmaku asciiLower True [demoEvent] (mkSettings 8) noFilter 7.1 0))
   \<and> (demoEvent, 2) \<in> set (snd (activeOverlayDanmaku asciiLower True [demoEvent] (mkSettings 8) noFilter 4.9 0))
   \<and> (demoEvent, 2) \<notin> set (snd (activeOverlayDanmaku asciiLower True [demoEvent] (mkSettings 8) noFilter 4.4 0))"
proof -
  have h1: "sorted (map time [demoEvent])" by simp
  have h2: "0 < speed (mkSettings 8)" by (simp add: mkSettings_def)
  have h3: "resetFires [demoEvent] (startTimeWindowOf (mkSettings 8) now) 0
              \<or> cursorFresh [demoEvent] (startTimeWindowOf (mkSettings 8) now) 0" for now
    by (simp add: cursorFresh_def)
  have dur: "actualDurationOf (speed (mkSettings 8)) demoEvent = 2"
    by (simp add: actualDurationOf_def intrinsicFactorOf_def clampedLenOf_def demoEvent_def
        mkItem_def mkSettings_def oneChar_def)
  have flt: "\<not> medalBlocked noFilter demoEvent" "\<not> keywordBlocked asciiLower noFilter demoEvent"
    by (simp_all add: medalBlocked_def keywordBlocked_def noFilter_def)
  have t: "time demoEvent = 5" by (simp add: demoEvent_def mkItem_def)
  note iff = overlay_visible_iff [where shw = True and xs = "[demoEvent]" and ds = "mkSettings 8"
      and c = 0 and d = demoEvent and dur = 2 and lc = asciiLower and fs = noFilter, OF TrueI h1 h2 h3]
  show ?thesis
    using h1 h2 iff [where now = "6.9"] iff [where now = "7.1"] iff [where now = "4.9"]
      iff [where now = "4.4"]
    by (simp add: dur flt t cursorFresh_def)
qed

text \<open>
  At \<open>now = 4.9\<close> the event with time 5 is already in the rendered set, although its time
  is later than \<open>now\<close>.
\<close>

theorem overlay_lookahead_counterexample:
  "(demoEvent, 2) \<in> set (snd (activeOverlayDanmaku asciiLower True [demoEvent] (mkSettings 8) noFilter 4.9 0))
   \<and> \<not> time demoEvent \<le> 4.9"
  by (simp add: activeOverlayDanmaku_def advanceCursor.simps Let_def demoEvent_def mkItem_def mkSettings_def
      noFilter_def oneChar_def actualDurationOf_def intrinsicFactorOf_def clampedLenOf_def
      medalBlocked_def keywordBlocked_def)

text \<open>
  C4 (cursor versus full scan). The claim is that the cursor persisted between frames
  never changes the visible set. The code at two runs that start from cursor 0. First,
  events at 77 and 80 at speed 1: the frame at \<open>now = 100\<close> moves the cursor past the event
  at 77, and after a seek back to \<open>now = 92\<close> the cursor's event (80) is not more than 10
  seconds ahead of the window start, so the guard does not reset the cursor and the frame
  returns the event at 80 alone, while the scan from index 0 returns both. Second, with a
  ten-character event at 77 and the time standing at 100, lowering the speed from 1 to
  0.75 leaves the cursor where it is and the event at 77, visible at the lower speed, is
  not returned.
\<close>

theorem stale_cursor_drops_visible_event:
  "overlayFrames asciiLower True demoPair (mkSettings 1) noFilter 0 [100, 92]
     = [[], [(mkItem 80 oneChar None, 16)]]
   \<and> snd (activeOverlayDanmaku asciiLower True demoPair (mkSettings 1) noFilter 92 0)
     = [(mkItem 77 oneChar None, 16), (mkItem 80 oneChar None, 16)]
   \<and> visibleAt asciiLower (mkSettings 1) noFilter 92 (mkItem 77 oneChar None)
   \<and> fst (activeOverlayDanmaku asciiLower True demoPairLong (mkSettings 1) noFilter 100 0) = 1
   \<and> snd (activeOverlayDanmaku asciiLower True demoPairLong (mkSettings 0.75) noFilter 100 1)
     = [(mkItem 80 oneChar None, 64 / 3)]
   \<and> snd (activeOverlayDanmaku asciiLower True demoPairLong (mkSettings 0.75) noFilter 100 0)
     = [(mkItem 77 tenChars None, 2560000 / 90003), (mkItem 80 oneChar None, 64 / 3)]"
proof -
  have v: "visibleAt asciiLower (mkSettings 1) noFilter 92 (mkItem 77 oneChar None)"
    by (simp add: visibleAt_def mkItem_def mkSettings_def noFilter_def oneChar_def
        actualDurationOf_def intrinsicFactorOf_def clampedLenOf_def medalBlocked_def keywordBlocked_def)
  have f: "overlayFrames asciiLower True demoPair (mkSettings 1) noFilter 0 [100, 92]
     = [[], [(mkItem 80 oneChar None, 16)]]"
    by (simp only: overlayFrames.simps demoPair_frames_full prod.case)
  from v f show ?thesis by (simp only: demoPair_frames_full demoPairLong_frames fst_conv snd_conv)
qed

theorem stale_cursor_drops_visible_event_witness:
  "snd (activeOverlayDanmaku asciiLower True demoPair (mkSettings 1) noFilter 92 0)
     \<noteq> last (overlayFrames asciiLower True demoPair (mkSettings 1) noFilter 0 [100, 92])"
  using stale_cursor_drops_visible_event by simp

section \<open>DanmakuLayer: the smoothed clock\<close>

text \<open>
  The video element as the animation loop reads it, and the layer's own state:
  \<^verbatim>\<open>smoothTime\<close>, the two refs, and whether an animation frame is requested.
  \<open>update\<close> is one run of the frame callback at \<^verbatim>\<open>performance.now() = now\<close>
  (milliseconds); \<open>playEffect\<close> is the effect body that runs when \<^verbatim>\<open>isPlaying\<close> or
  the \<^verbatim>\<open>currentTime\<close> prop changes.
\<close>

record VideoElement =
  paused :: bool
  readyState :: int
  videoCurrentTime :: real
  videoPlaybackRate :: real

record LayerClock =
  smoothTime :: real
  lastUpdateRef :: real
  lastVideoTimeRef :: real
  framePending :: bool

definition update :: "real \<Rightarrow> VideoElement option \<Rightarrow> LayerClock \<Rightarrow> LayerClock" where
  "update now video st =
     (case video of
        None \<Rightarrow> st\<lparr>framePending := False\<rparr>
      | Some v \<Rightarrow>
          if \<not> paused v \<and> readyState v \<ge> 3
          then (let vTime = videoCurrentTime v;
                    st = (if vTime \<noteq> lastVideoTimeRef st
                          then st\<lparr>lastVideoTimeRef := vTime, lastUpdateRef := now, smoothTime := vTime\<rparr>
                          else (let elapsed = (now - lastUpdateRef st) / 1000;
                                    playbackRate = js_or (videoPlaybackRate v) 1
                                in st\<lparr>smoothTime := vTime + elapsed * playbackRate\<rparr>))
                in st\<lparr>framePending := True\<rparr>)
          else st\<lparr>framePending := False\<rparr>)"

definition playEffect :: "bool \<Rightarrow> real \<Rightarrow> VideoElement option \<Rightarrow> real \<Rightarrow> LayerClock \<Rightarrow> LayerClock" where
  "playEffect isPlaying now video curTime st =
     (if isPlaying
      then st\<lparr>lastUpdateRef := now,
              lastVideoTimeRef := (case video of None \<Rightarrow> curTime
                                   | Some v \<Rightarrow> js_or (videoCurrentTime v) curTime),
              framePending := True\<rparr>
      else st\<lparr>smoothTime := curTime, lastVideoTimeRef := curTime, framePending := False\<rparr>)"

definition playingAt :: "real \<Rightarrow> real \<Rightarrow> VideoElement" where
  "playingAt pos rate = \<lparr>paused = False, readyState = 4, videoCurrentTime = pos, videoPlaybackRate = rate\<rparr>"

definition initialClock :: "real \<Rightarrow> real \<Rightarrow> LayerClock" where
  "initialClock now curTime =
     \<lparr>smoothTime = curTime, lastUpdateRef = now, lastVideoTimeRef = curTime, framePending = False\<rparr>"

text \<open>
  The sample sequence of the specification: playing starts at wall time 0 with position
  1.0, a tick at 0.5 s sees position 1.0, a tick at 1.0 s sees position 2.0.
\<close>

definition sampleRun0 :: LayerClock where
  "sampleRun0 = playEffect True 0 (Some (playingAt 1.0 1.0)) 1.0 (initialClock 0 1.0)"

definition sampleRun1 :: LayerClock where
  "sampleRun1 = update 500 (Some (playingAt 1.0 1.0)) sampleRun0"

definition sampleRun2 :: LayerClock where
  "sampleRun2 = update 1000 (Some (playingAt 2.0 1.0)) sampleRun1"

definition seekBackState :: LayerClock where
  "seekBackState = \<lparr>smoothTime = 50, lastUpdateRef = 0, lastVideoTimeRef = 50, framePending = True\<rparr>"

section \<open>Claims about the clock\<close>

text \<open>
  C8 (clock), as the code computes it. On a tick while the video plays and is ready: if
  the raw position differs from the last sampled one (in either direction), the output is
  that raw position and the base is reset to it; otherwise the output is the last sampled
  position plus the elapsed wall seconds times the playback rate (a rate of 0 counts as 1).
  On the sample sequence the output is 1.5 at 0.5 s and 2.0 at 1.0 s. When not playing the
  output is the raw position, and a tick on a paused video changes nothing.
\<close>

theorem clock_tick:
  assumes "\<not> paused v" and "readyState v \<ge> 3"
  shows "(videoCurrentTime v \<noteq> lastVideoTimeRef st \<longrightarrow>
            smoothTime (update now (Some v) st) = videoCurrentTime v
            \<and> lastVideoTimeRef (update now (Some v) st) = videoCurrentTime v
            \<and> lastUpdateRef (update now (Some v) st) = now)
       \<and> (videoCurrentTime v = lastVideoTimeRef st \<longrightarrow>
            smoothTime (update now (Some v) st) =
              lastVideoTimeRef st + ((now - lastUpdateRef st) / 1000)
                * (if videoPlaybackRate v = 0 then 1 else videoPlaybackRate v)
            \<and> lastVideoTimeRef (update now (Some v) st) = lastVideoTimeRef st
            \<and> lastUpdateRef (update now (Some v) st) = lastUpdateRef st)
       \<and> smoothTime sampleRun1 = 1.5 \<and> smoothTime sampleRun2 = 2.0
       \<and> smoothTime (playEffect False now video curTime st) = curTime
       \<and> (paused w \<longrightarrow> smoothTime (update now (Some w) st) = smoothTime st)"
proof -
  have a: "videoCurrentTime v \<noteq> lastVideoTimeRef st \<longrightarrow>
            smoothTime (update now (Some v) st) = videoCurrentTime v
            \<and> lastVideoTimeRef (update now (Some v) st) = videoCurrentTime v
            \<and> lastUpdateRef (update now (Some v) st) = now"
    using assms by (simp add: update_def Let_def)
  have b: "videoCurrentTime v = lastVideoTimeRef st \<longrightarrow>
            smoothTime (update now (Some v) st) =
              lastVideoTimeRef st + ((now - lastUpdateRef st) / 1000)
                * (if videoPlaybackRate v = 0 then 1 else videoPlaybackRate v)
            \<and> lastVideoTimeRef (update now (Some v) st) = lastVideoTimeRef st
            \<and> lastUpdateRef (update now (Some v) st) = lastUpdateRef st"
    using assms by (simp add: update_def Let_def js_or_def)
  have c: "smoothTime sampleRun1 = 1.5" "smoothTime sampleRun2 = 2.0"
    by (simp_all add: sampleRun2_def sampleRun1_def sampleRun0_def update_def playEffect_def
        playingAt_def initialClock_def Let_def js_or_def)
  have d: "smoothTime (playEffect False now video curTime st) = curTime"
    by (simp add: playEffect_def)
  have e: "paused w \<longrightarrow> smoothTime (update now (Some w) st) = smoothTime st"
    by (simp add: update_def)
  from a b c d e show ?thesis by blast
qed

theorem clock_tick_witness:
  "\<not> paused (playingAt 1.0 1.0) \<and> readyState (playingAt 1.0 1.0) \<ge> 3
   \<and> videoCurrentTime (playingAt 1.0 1.0) = lastVideoTimeRef sampleRun0
   \<and> smoothTime (update 500 (Some (playingAt 1.0 1.0)) sampleRun0) = 1.5
   \<and> videoCurrentTime (playingAt 2.0 1.0) \<noteq> lastVideoTimeRef sampleRun1
   \<and> smoothTime (update 1000 (Some (playingAt 2.0 1.0)) sampleRun1) = 2.0"
proof -
  have h1: "\<not> paused (playingAt p r)" "readyState (playingAt p r) \<ge> 3" for p r
    by (simp_all add: playingAt_def)
  have s0: "lastVideoTimeRef sampleRun0 = 1" "lastUpdateRef sampleRun0 = 0"
    by (simp_all add: sampleRun0_def playEffect_def playingAt_def initialClock_def js_or_def)
  have s1: "lastVideoTimeRef sampleRun1 = 1"
    by (simp add: sampleRun1_def update_def s0 playingAt_def Let_def)
  from clock_tick [OF h1, of "1.0" "1.0" sampleRun0 500]
       clock_tick [OF h1, of "2.0" "1.0" sampleRun1 1000] h1 s0 s1
  show ?thesis by (simp add: playingAt_def)
qed

text \<open>
  A seek back while playing: the raw position 20 has not advanced beyond the last sample
  50, and the output is 20, not the extrapolation from 50.
\<close>

theorem clock_backward_jump_counterexample:
  "smoothTime (update 16 (Some (playingAt 20 1)) seekBackState) = 20
   \<and> \<not> videoCurrentTime (playingAt 20 1) > lastVideoTimeRef seekBackState
   \<and> smoothTime (update 16 (Some (playingAt 20 1)) seekBackState)
        \<noteq> lastVideoTimeRef seekBackState + ((16 - lastUpdateRef seekBackState) / 1000) * videoPlaybackRate (playingAt 20 1)"
  by (simp add: update_def playingAt_def seekBackState_def Let_def)

section \<open>ChatList: the sidebar list\<close>






section \<open>Claims about the sidebar list\<close>



section \<open>parser: the track calculation\<close>

text \<open>
  The track calculation at the end of \<^verbatim>\<open>parseDanmakuXml\<close>, on items whose times are
  numbers. \<open>findIndex\<close> is the first loop (the first track that is free at the item's
  time), \<open>minScan\<close> the second (the track that frees first, \<^verbatim>\<open>minTime\<close> starting at
  \<^verbatim>\<open>Infinity\<close>, here \<open>None\<close>), and the remainder of the timestamp the last resort.
  \<open>assignTrack\<close> is the body of the \<^verbatim>\<open>forEach\<close> callback.
\<close>

definition TOTAL_TRACKS :: nat where "TOTAL_TRACKS = 16"

fun minScan :: "real list \<Rightarrow> nat \<Rightarrow> real option \<times> int \<Rightarrow> real option \<times> int" where
  "minScan [] t s = s"
| "minScan (f # fs) t (minTime, bestTrack) =
     (if (case minTime of None \<Rightarrow> True | Some m \<Rightarrow> f < m)
      then minScan fs (t + 1) (Some f, int t)
      else minScan fs (t + 1) (minTime, bestTrack))"

definition js_rem :: "int \<Rightarrow> int \<Rightarrow> int" where
  \<comment> \<open>\<^verbatim>\<open>a % b\<close> on integers: the sign of the dividend\<close>
  "js_rem a b = sgn a * (\<bar>a\<bar> mod \<bar>b\<bar>)"

definition assignTrack :: "real list \<Rightarrow> DanmakuItem \<Rightarrow> real list \<times> DanmakuItem" where
  "assignTrack tracksFreeTime item =
     (let bestTrack = (case findIndex (\<lambda>f. f \<le> time item) (take TOTAL_TRACKS tracksFreeTime) of
                         Some t \<Rightarrow> int t | None \<Rightarrow> -1);
          bestTrack = (if bestTrack = -1
                       then snd (minScan (take TOTAL_TRACKS tracksFreeTime) 0 (None, -1))
                       else bestTrack);
          bestTrack = (if bestTrack = -1 then js_rem (timestamp item) (int TOTAL_TRACKS) else bestTrack);
          item = item\<lparr>trackIndex := bestTrack\<rparr>;
          tracksFreeTime = (if 0 \<le> bestTrack then tracksFreeTime[nat bestTrack := time item + 3.0]
                            else tracksFreeTime)
      in (tracksFreeTime, item))"

fun assignTracks :: "real list \<Rightarrow> DanmakuItem list \<Rightarrow> DanmakuItem list" where
  "assignTracks tracksFreeTime [] = []"
| "assignTracks tracksFreeTime (item # items) =
     (case assignTrack tracksFreeTime item of
        (tracksFreeTime', item') \<Rightarrow> item' # assignTracks tracksFreeTime' items)"

fun tracksAfter :: "real list \<Rightarrow> DanmakuItem list \<Rightarrow> real list" where
  "tracksAfter tracksFreeTime [] = tracksFreeTime"
| "tracksAfter tracksFreeTime (item # items) = tracksAfter (fst (assignTrack tracksFreeTime item)) items"

definition assignLanes :: "DanmakuItem list \<Rightarrow> DanmakuItem list" where
  "assignLanes items = assignTracks (replicate TOTAL_TRACKS 0) items"

definition lanesAfter :: "DanmakuItem list \<Rightarrow> real list" where
  "lanesAfter items = tracksAfter (replicate TOTAL_TRACKS 0) items"

text \<open>
  The number of events that hold a lane at the instant \<open>\<tau>\<close> (an event holds its lane
  from its time for 3.0 seconds), and two events whose holding intervals intersect.
\<close>

definition activeAt :: "DanmakuItem list \<Rightarrow> real \<Rightarrow> nat" where
  "activeAt items \<tau> = length (filter (\<lambda>d. time d \<le> \<tau> \<and> \<tau> < time d + 3.0) items)"

definition overlapping :: "DanmakuItem \<Rightarrow> DanmakuItem \<Rightarrow> bool" where
  "overlapping a b = (time a < time b + 3.0 \<and> time b < time a + 3.0)"

text \<open>
  Concrete inputs.
\<close>

definition demoLanes :: "DanmakuItem list" where
  "demoLanes = [mkItem 0 oneChar None, mkItem 1 oneChar None, mkItem 3.5 oneChar None]"

definition negPair :: "DanmakuItem list" where
  "negPair = [mkItem (-5) oneChar None, mkItem (-4.5) oneChar None]"

subsection \<open>Facts about the track calculation\<close>

lemma time_assignTrack [simp]: "time (snd (assignTrack tracks item)) = time item"
  by (simp add: assignTrack_def Let_def)

lemma map_time_assignTracks [simp]: "map time (assignTracks tracks items) = map time items"
  by (induction items arbitrary: tracks) (simp_all split: prod.splits, metis snd_conv time_assignTrack)

lemma minScan_range:
  "snd (minScan fs t (m, b)) = b \<or> (\<exists>k. t \<le> k \<and> k < t + length fs \<and> snd (minScan fs t (m, b)) = int k)"
proof (induction fs arbitrary: t m b)
  case Nil
  then show ?case by simp
next
  case (Cons f fs)
  show ?case
  proof (cases "case m of None \<Rightarrow> True | Some m' \<Rightarrow> f < m'")
    case True
    from Cons.IH [of "t + 1" "Some f" "int t"] True show ?thesis
      by (auto simp del: of_nat_Suc)
  next
    case False
    from Cons.IH [of "t + 1" m b] False show ?thesis
      by auto
  qed
qed

lemma minScan_finds:
  assumes "fs \<noteq> []"
  shows "\<exists>k. t \<le> k \<and> k < t + length fs \<and> snd (minScan fs t (None, b)) = int k"
proof -
  from assms obtain f rest where fs: "fs = f # rest" by (cases fs) auto
  from minScan_range [of rest "t + 1" "Some f" "int t"] show ?thesis
    unfolding fs by (auto simp del: of_nat_Suc)
qed

lemma assignTrack_cases:
  assumes "length tracks = 16"
  shows "\<exists>k<16. assignTrack tracks item = (tracks[k := time item + 3], item\<lparr>trackIndex := int k\<rparr>)
           \<and> ((\<exists>t<16. tracks ! t \<le> time item) \<longrightarrow> tracks ! k \<le> time item)"
proof (cases "findIndex (\<lambda>f. f \<le> time item) tracks")
  case None
  from findIndex_None [OF None] assms have no: "\<not> (\<exists>t<16. tracks ! t \<le> time item)"
    by (auto simp: all_set_conv_all_nth)
  from assms have "tracks \<noteq> []" by auto
  from minScan_finds [OF this, of 0 "-1"] assms
  obtain k where k: "k < 16" "snd (minScan tracks 0 (None, -1)) = int k" by auto
  then have "assignTrack tracks item = (tracks[k := time item + 3], item\<lparr>trackIndex := int k\<rparr>)"
    using None assms by (simp add: assignTrack_def TOTAL_TRACKS_def Let_def)
  with k(1) no show ?thesis by blast
next
  case (Some t)
  from findIndex_Some [OF Some] assms have t: "t < 16" "tracks ! t \<le> time item" by simp_all
  have "assignTrack tracks item = (tracks[t := time item + 3], item\<lparr>trackIndex := int t\<rparr>)"
    using Some assms by (simp add: assignTrack_def TOTAL_TRACKS_def Let_def)
  with t show ?thesis by blast
qed

lemma length_assignTrack:
  "length (fst (assignTrack tracks item)) = length tracks"
  by (simp add: assignTrack_def Let_def)

lemma length_tracksAfter [simp]: "length (tracksAfter tracks items) = length tracks"
  by (induction items arbitrary: tracks) (simp_all add: length_assignTrack)

lemma length_assignTracks [simp]: "length (assignTracks tracks items) = length items"
  by (induction items arbitrary: tracks) (simp_all split: prod.splits)

lemma tracksAfter_snoc:
  "tracksAfter tracks (items @ [x]) = fst (assignTrack (tracksAfter tracks items) x)"
  by (induction items arbitrary: tracks) simp_all

lemma assignTracks_snoc:
  "assignTracks tracks (items @ [x]) =
     assignTracks tracks items @ [snd (assignTrack (tracksAfter tracks items) x)]"
  by (induction items arbitrary: tracks) (simp_all split: prod.splits)

lemma tracksAfter_append:
  "tracksAfter tracks (xs @ zs) = tracksAfter (tracksAfter tracks xs) zs"
  by (induction xs arbitrary: tracks) simp_all

lemma assignTracks_append:
  "assignTracks tracks (xs @ zs) = assignTracks tracks xs @ assignTracks (tracksAfter tracks xs) zs"
  by (induction xs arbitrary: tracks) (simp_all split: prod.splits)

lemma activeAt_time_only:
  assumes "map time ys = map time xs"
  shows "activeAt ys \<tau> = activeAt xs \<tau>"
proof -
  have a: "activeAt zs \<tau> = length (filter (\<lambda>t. t \<le> \<tau> \<and> \<tau> < t + 3.0) (map time zs))" for zs
    unfolding activeAt_def length_filter_map comp_def ..
  show ?thesis unfolding a assms ..
qed

lemma activeAt_snoc_le: "activeAt xs \<tau> \<le> activeAt (xs @ [x]) \<tau>"
  by (simp add: activeAt_def)

text \<open>
  Sixteen lanes that all hold an active event mean at least sixteen active events.
\<close>

lemma all_lanes_busy:
  assumes "\<forall>k<16. \<exists>y \<in> set ys. trackIndex y = int k \<and> time y \<le> \<tau> \<and> \<tau> < time y + 3"
  shows "16 \<le> activeAt ys \<tau>"
proof -
  define A where "A = set (filter (\<lambda>d. time d \<le> \<tau> \<and> \<tau> < time d + 3.0) ys)"
  have "int ` {0..<16} \<subseteq> trackIndex ` A"
  proof
    fix z assume "z \<in> int ` {0..<16}"
    then obtain k where k: "k < 16" "z = int k" by auto
    with assms obtain y where "y \<in> set ys" "trackIndex y = int k" "time y \<le> \<tau>" "\<tau> < time y + 3"
      by blast
    with k show "z \<in> trackIndex ` A" by (force simp: A_def)
  qed
  then have "card (int ` {0..<16}) \<le> card (trackIndex ` A)"
    by (intro card_mono) (simp_all add: A_def)
  also have "\<dots> \<le> card A" by (intro card_image_le) (simp add: A_def)
  also have "\<dots> \<le> activeAt ys \<tau>" unfolding A_def activeAt_def by (rule card_length)
  finally show ?thesis by (simp add: card_image)
qed

text \<open>
  The invariant of the loop: every assigned lane is busy at least until its events end,
  a lane's free time is 0 or the end of one of its events, and no two events that overlap
  share a lane.
\<close>

definition laneInv :: "DanmakuItem list \<Rightarrow> bool" where
  "laneInv items =
     ((\<forall>y \<in> set (assignLanes items). \<exists>k<16. trackIndex y = int k \<and> time y + 3 \<le> lanesAfter items ! k)
    \<and> (\<forall>k<16. lanesAfter items ! k = 0
           \<or> (\<exists>y \<in> set (assignLanes items). trackIndex y = int k \<and> lanesAfter items ! k = time y + 3))
    \<and> (\<forall>i j. i < j \<and> j < length items \<and> time (items ! j) < time (items ! i) + 3
           \<longrightarrow> trackIndex (assignLanes items ! i) \<noteq> trackIndex (assignLanes items ! j)))"

lemma lane_invariant:
  "sorted (map time items) \<Longrightarrow> (\<forall>d \<in> set items. 0 \<le> time d) \<Longrightarrow>
     (\<forall>d \<in> set items. activeAt items (time d) \<le> 16) \<Longrightarrow> laneInv items"
proof (induction items rule: rev_induct)
  case Nil
  then show ?case by (simp add: laneInv_def assignLanes_def lanesAfter_def TOTAL_TRACKS_def)
next
  case (snoc x xs)
  define ys where "ys = assignLanes xs"
  define T where "T = lanesAfter xs"
  define n where "n = length xs"
  have lenT: "length T = 16" by (simp add: T_def lanesAfter_def TOTAL_TRACKS_def)
  have lenys: "length ys = n" by (simp add: ys_def assignLanes_def n_def)
  have times: "map time ys = map time xs" by (simp add: ys_def assignLanes_def)
  from snoc.prems(1) have srt: "sorted (map time xs)" and le_x: "\<forall>d \<in> set xs. time d \<le> time x"
    by (simp_all add: sorted_append)
  from snoc.prems(2) have nonneg: "\<forall>d \<in> set xs. 0 \<le> time d" and x0: "0 \<le> time x" by simp_all
  have act: "\<forall>d \<in> set xs. activeAt xs (time d) \<le> 16"
  proof
    fix d assume "d \<in> set xs"
    with snoc.prems(3) have "activeAt (xs @ [x]) (time d) \<le> 16" by simp
    with activeAt_snoc_le [of xs "time d" x] show "activeAt xs (time d) \<le> 16" by simp
  qed
  from snoc.IH [OF srt nonneg act] have inv: "laneInv xs" .
  then have I1: "\<forall>y \<in> set ys. \<exists>k<16. trackIndex y = int k \<and> time y + 3 \<le> T ! k"
    and I2: "\<forall>k<16. T ! k = 0 \<or> (\<exists>y \<in> set ys. trackIndex y = int k \<and> T ! k = time y + 3)"
    and I3: "\<forall>i j. i < j \<and> j < n \<and> time (xs ! j) < time (xs ! i) + 3
               \<longrightarrow> trackIndex (ys ! i) \<noteq> trackIndex (ys ! j)"
    by (simp_all add: laneInv_def ys_def T_def n_def)
  have ys_le: "\<forall>y \<in> set ys. time y \<le> time x"
  proof
    fix y assume "y \<in> set ys"
    then have "time y \<in> set (map time ys)" by simp
    with times have "time y \<in> time ` set xs" by simp
    with le_x show "time y \<le> time x" by auto
  qed
  from assignTrack_cases [OF lenT, of x]
  obtain k where k: "k < 16"
    and step: "assignTrack T x = (T[k := time x + 3], x\<lparr>trackIndex := int k\<rparr>)"
    and fit: "(\<exists>t<16. T ! t \<le> time x) \<longrightarrow> T ! k \<le> time x"
    by blast
  have free: "\<exists>t<16. T ! t \<le> time x"
  proof (rule ccontr)
    assume "\<not> (\<exists>t<16. T ! t \<le> time x)"
    then have busy: "\<forall>t<16. time x < T ! t" by (simp add: not_le)
    have "\<forall>t<16. \<exists>y \<in> set ys. trackIndex y = int t \<and> time y \<le> time x \<and> time x < time y + 3"
    proof (intro allI impI)
      fix t :: nat assume t: "t < 16"
      with busy x0 have "T ! t \<noteq> 0" by fastforce
      with I2 t obtain y where y: "y \<in> set ys" "trackIndex y = int t" "T ! t = time y + 3" by blast
      with busy t ys_le show "\<exists>y \<in> set ys. trackIndex y = int t \<and> time y \<le> time x \<and> time x < time y + 3"
        by (intro bexI [of _ y]) auto
    qed
    then have "16 \<le> activeAt ys (time x)" by (rule all_lanes_busy)
    also have "\<dots> = activeAt xs (time x)" using times by (rule activeAt_time_only)
    finally have "17 \<le> activeAt (xs @ [x]) (time x)" by (simp add: activeAt_def)
    moreover from snoc.prems(3) have "activeAt (xs @ [x]) (time x) \<le> 16" by simp
    ultimately show False by simp
  qed
  with fit have fitk: "T ! k \<le> time x" by simp
  define y' where "y' = x\<lparr>trackIndex := int k\<rparr>"
  have ys': "assignLanes (xs @ [x]) = ys @ [y']"
    by (simp add: assignLanes_def assignTracks_snoc ys_def y'_def step
        T_def [unfolded lanesAfter_def, symmetric])
  have T': "lanesAfter (xs @ [x]) = T[k := time x + 3]"
    by (simp add: lanesAfter_def tracksAfter_snoc step T_def [unfolded lanesAfter_def, symmetric])
  have J1: "\<forall>y \<in> set (ys @ [y']). \<exists>j<16. trackIndex y = int j \<and> time y + 3 \<le> T[k := time x + 3] ! j"
  proof
    fix y assume "y \<in> set (ys @ [y'])"
    then consider "y \<in> set ys" | "y = y'" by auto
    then show "\<exists>j<16. trackIndex y = int j \<and> time y + 3 \<le> T[k := time x + 3] ! j"
    proof cases
      case 1
      with I1 obtain j where j: "j < 16" "trackIndex y = int j" "time y + 3 \<le> T ! j" by blast
      from 1 ys_le have "time y + 3 \<le> time x + 3" by simp
      with j lenT show ?thesis by (intro exI [of _ j]) (cases "j = k", simp_all)
    next
      case 2
      with k lenT show ?thesis by (intro exI [of _ k]) (simp add: y'_def)
    qed
  qed
  have J2: "\<forall>j<16. T[k := time x + 3] ! j = 0
              \<or> (\<exists>y \<in> set (ys @ [y']). trackIndex y = int j \<and> T[k := time x + 3] ! j = time y + 3)"
  proof (intro allI impI)
    fix j :: nat assume j: "j < 16"
    show "T[k := time x + 3] ! j = 0
            \<or> (\<exists>y \<in> set (ys @ [y']). trackIndex y = int j \<and> T[k := time x + 3] ! j = time y + 3)"
    proof (cases "j = k")
      case True
      with lenT k have "trackIndex y' = int j \<and> T[k := time x + 3] ! j = time y' + 3"
        by (simp add: y'_def)
      then show ?thesis by auto
    next
      case False
      then have "T[k := time x + 3] ! j = T ! j" by simp
      with I2 j show ?thesis by auto
    qed
  qed
  have J3: "\<forall>i j. i < j \<and> j < length (xs @ [x]) \<and> time ((xs @ [x]) ! j) < time ((xs @ [x]) ! i) + 3
              \<longrightarrow> trackIndex ((ys @ [y']) ! i) \<noteq> trackIndex ((ys @ [y']) ! j)"
  proof (intro allI impI)
    fix i j
    assume a: "i < j \<and> j < length (xs @ [x]) \<and> time ((xs @ [x]) ! j) < time ((xs @ [x]) ! i) + 3"
    show "trackIndex ((ys @ [y']) ! i) \<noteq> trackIndex ((ys @ [y']) ! j)"
    proof (cases "j < n")
      case True
      with a have i: "i < n" by simp
      from i True a have "time (xs ! j) < time (xs ! i) + 3" by (auto simp: nth_append n_def)
      with I3 a True have "trackIndex (ys ! i) \<noteq> trackIndex (ys ! j)" by blast
      with True i lenys show ?thesis by (simp add: nth_append)
    next
      case False
      with a have j: "j = n" and i: "i < n" by (simp_all add: n_def)
      from i j a have ov: "time x < time (xs ! i) + 3" by (auto simp: nth_append n_def)
      have ti: "time (ys ! i) = time (xs ! i)"
        using times i lenys by (metis nth_map n_def)
      from i lenys have "ys ! i \<in> set ys" by simp
      with I1 obtain m where m: "m < 16" "trackIndex (ys ! i) = int m" "time (ys ! i) + 3 \<le> T ! m"
        by blast
      have "m \<noteq> k"
      proof
        assume "m = k"
        with m(3) fitk ti ov show False by simp
      qed
      with m(2) i j lenys show ?thesis by (simp add: nth_append y'_def)
    qed
  qed
  from J1 J2 J3 show ?case
    unfolding laneInv_def ys' T' by blast
qed

lemma assignLanes_nth:
  assumes "i < length items"
  shows "assignLanes items ! i = snd (assignTrack (lanesAfter (take i items)) (items ! i))"
    and "lanesAfter (take (Suc i) items) = fst (assignTrack (lanesAfter (take i items)) (items ! i))"
proof -
  from assms have split: "items = take i items @ (items ! i) # drop (Suc i) items"
    by (simp add: id_take_nth_drop)
  have "assignLanes items ! i
          = assignTracks (replicate TOTAL_TRACKS 0) (take i items @ (items ! i) # drop (Suc i) items) ! i"
    using split by (simp add: assignLanes_def)
  also have "\<dots> = snd (assignTrack (lanesAfter (take i items)) (items ! i))"
    using assms by (simp add: assignTracks_append nth_append lanesAfter_def split: prod.splits)
  finally show "assignLanes items ! i = snd (assignTrack (lanesAfter (take i items)) (items ! i))" .
  from assms show "lanesAfter (take (Suc i) items) = fst (assignTrack (lanesAfter (take i items)) (items ! i))"
    by (simp add: take_Suc_conv_app_nth lanesAfter_def tracksAfter_snoc)
qed

lemma lane_held:
  assumes "i < length items"
  shows "0 \<le> trackIndex (assignLanes items ! i) \<and> trackIndex (assignLanes items ! i) < 16
       \<and> lanesAfter (take (Suc i) items) ! nat (trackIndex (assignLanes items ! i)) = time (items ! i) + 3"
proof -
  have len: "length (lanesAfter (take i items)) = 16"
    by (simp add: lanesAfter_def TOTAL_TRACKS_def)
  from assignTrack_cases [OF len, of "items ! i"]
  obtain k where "k < 16"
    "assignTrack (lanesAfter (take i items)) (items ! i)
       = ((lanesAfter (take i items))[k := time (items ! i) + 3], (items ! i)\<lparr>trackIndex := int k\<rparr>)"
    by blast
  with len show ?thesis
    by (simp add: assignLanes_nth [OF assms])
qed

lemma demoLanes_tracks: "map trackIndex (assignLanes demoLanes) = [0, 1, 0]"
  by (simp add: assignLanes_def demoLanes_def assignTrack_def TOTAL_TRACKS_def mkItem_def Let_def
      numeral_eq_Suc)

lemma negPair_tracks: "map trackIndex (assignLanes negPair) = [0, 0]"
  by (simp add: assignLanes_def negPair_def assignTrack_def TOTAL_TRACKS_def mkItem_def Let_def
      numeral_eq_Suc)

section \<open>Claims about the lane assignment\<close>

text \<open>
  C5 (lane assignment), as the code guarantees it. For every time-sorted sequence of
  events with non-negative times in which at most 16 events hold a lane at any instant,
  no two events whose holding intervals intersect get the same lane; and every event gets
  a lane from 0 to 15 whose free time, once the event is placed, is the event's time plus
  3.0.
\<close>

theorem lanes_do_not_overlap:
  assumes "sorted (map time items)" and "\<forall>d \<in> set items. 0 \<le> time d"
    and "\<forall>\<tau>. activeAt items \<tau> \<le> 16"
  shows "(\<forall>i j. i < length items \<and> j < length items \<and> i \<noteq> j \<and> overlapping (items ! i) (items ! j)
            \<longrightarrow> trackIndex (assignLanes items ! i) \<noteq> trackIndex (assignLanes items ! j))
       \<and> (\<forall>i < length items.
            0 \<le> trackIndex (assignLanes items ! i) \<and> trackIndex (assignLanes items ! i) < 16
            \<and> lanesAfter (take (Suc i) items) ! nat (trackIndex (assignLanes items ! i))
                = time (items ! i) + 3)"
proof (intro conjI allI impI)
  from assms(3) have "\<forall>d \<in> set items. activeAt items (time d) \<le> 16" by simp
  from lane_invariant [OF assms(1,2) this]
  have ordered: "\<And>i j. i < j \<Longrightarrow> j < length items \<Longrightarrow> time (items ! j) < time (items ! i) + 3 \<Longrightarrow>
                   trackIndex (assignLanes items ! i) \<noteq> trackIndex (assignLanes items ! j)"
    by (simp add: laneInv_def)
  fix i j
  assume a: "i < length items \<and> j < length items \<and> i \<noteq> j \<and> overlapping (items ! i) (items ! j)"
  then consider "i < j" | "j < i" by linarith
  then show "trackIndex (assignLanes items ! i) \<noteq> trackIndex (assignLanes items ! j)"
  proof cases
    case 1
    with a ordered [of i j] show ?thesis by (simp add: overlapping_def)
  next
    case 2
    with a ordered [of j i] show ?thesis by (simp add: overlapping_def)
  qed
next
  fix i assume "i < length items"
  from lane_held [OF this]
  show "0 \<le> trackIndex (assignLanes items ! i)"
    and "trackIndex (assignLanes items ! i) < 16"
    and "lanesAfter (take (Suc i) items) ! nat (trackIndex (assignLanes items ! i)) = time (items ! i) + 3"
    by simp_all
qed

theorem lanes_do_not_overlap_witness:
  "sorted (map time demoLanes) \<and> 0 \<le> time (demoLanes ! 0) \<and> length demoLanes \<le> 16
   \<and> overlapping (demoLanes ! 0) (demoLanes ! 1)
   \<and> trackIndex (assignLanes demoLanes ! 0) \<noteq> trackIndex (assignLanes demoLanes ! 1)
   \<and> map trackIndex (assignLanes demoLanes) = [0, 1, 0]
   \<and> lanesAfter (take (Suc 0) demoLanes) ! nat (trackIndex (assignLanes demoLanes ! 0)) = time (demoLanes ! 0) + 3"
proof -
  have h1: "sorted (map time demoLanes)" by (simp add: demoLanes_def mkItem_def)
  have h2: "\<forall>d \<in> set demoLanes. 0 \<le> time d" by (simp add: demoLanes_def mkItem_def)
  have h3: "\<forall>\<tau>. activeAt demoLanes \<tau> \<le> 16"
  proof
    fix \<tau>
    have "activeAt demoLanes \<tau> \<le> length demoLanes"
      unfolding activeAt_def by (rule length_filter_le)
    then show "activeAt demoLanes \<tau> \<le> 16" by (simp add: demoLanes_def)
  qed
  have ov: "overlapping (demoLanes ! 0) (demoLanes ! 1)"
    by (simp add: overlapping_def demoLanes_def mkItem_def)
  have len: "length demoLanes = 3" by (simp add: demoLanes_def)
  from lanes_do_not_overlap [OF h1 h2 h3] len ov
  have a: "trackIndex (assignLanes demoLanes ! 0) \<noteq> trackIndex (assignLanes demoLanes ! 1)"
    and b: "lanesAfter (take (Suc 0) demoLanes) ! nat (trackIndex (assignLanes demoLanes ! 0)) = time (demoLanes ! 0) + 3"
    by auto
  from h1 h2 a b ov len show ?thesis by (simp add: demoLanes_tracks)
qed

text \<open>
  All free times start at 0, so an event with a negative time finds no free lane: two
  events at -5 and -4.5 are both put on lane 0 although only two events are active.
\<close>

theorem negative_times_share_lane_counterexample:
  "sorted (map time negPair) \<and> length negPair = 2 \<and> overlapping (negPair ! 0) (negPair ! 1)
   \<and> trackIndex (assignLanes negPair ! 0) = trackIndex (assignLanes negPair ! 1)"
proof -
  have "length (assignLanes negPair) = 2" by (simp add: assignLanes_def) (simp add: negPair_def)
  then have "trackIndex (assignLanes negPair ! 0) = map trackIndex (assignLanes negPair) ! 0"
    "trackIndex (assignLanes negPair ! 1) = map trackIndex (assignLanes negPair) ! 1"
    by simp_all
  then have "trackIndex (assignLanes negPair ! 0) = trackIndex (assignLanes negPair ! 1)"
    by (simp add: negPair_tracks)
  then show ?thesis by (simp add: negPair_def mkItem_def overlapping_def)
qed



section \<open>parser: grouping files into sessions\<close>

text \<open>
  The loop of \<^verbatim>\<open>processRecordingFiles\<close> over the files of one streamer, in timestamp
  order. A file comes with the segment built from it (its duration and count are the result
  of scanning its chat log). \<open>sessionId\<close> holds the two parts of the template string
  \<^verbatim>\<open>`${file.roomId}-${file.timestamp}`\<close>.
\<close>

text \<open>
  \<^verbatim>\<open>Array.prototype.sort\<close> with a comparison function that returns numbers: a
  stable sort, here by insertion; \<open>cmp a b > 0\<close> places \<open>a\<close> after \<open>b\<close>.
\<close>

fun insertByCompare :: "('a \<Rightarrow> 'a \<Rightarrow> real) \<Rightarrow> 'a \<Rightarrow> 'a list \<Rightarrow> 'a list" where
  "insertByCompare cmp x [] = [x]"
| "insertByCompare cmp x (y # ys) =
     (if cmp y x > 0 then x # y # ys else y # insertByCompare cmp x ys)"

definition arraySort :: "('a \<Rightarrow> 'a \<Rightarrow> real) \<Rightarrow> 'a list \<Rightarrow> 'a list" where
  "arraySort cmp xs = foldl (\<lambda>acc x. insertByCompare cmp x acc) [] xs"

lemma mset_insertByCompare: "mset (insertByCompare cmp x ys) = add_mset x (mset ys)"
  by (induction ys) simp_all

lemma mset_arraySort_aux:
  "mset (foldl (\<lambda>acc x. insertByCompare cmp x acc) acc xs) = mset acc + mset xs"
  by (induction xs arbitrary: acc) (simp_all add: mset_insertByCompare)

lemma mset_arraySort: "mset (arraySort cmp xs) = mset xs"
  by (simp add: arraySort_def mset_arraySort_aux)

record StreamSession =
  sessionId :: "jsstring \<times> int"
  sessionRoomId :: jsstring
  sessionStreamerName :: jsstring
  sessionTitle :: jsstring
  startTime :: int
  endTime :: int
  segments :: "StreamSegment list"
  sessionTotalDuration :: real
  totalDanmakuCount :: int

fun sessionLoop ::
  "StreamSession option \<Rightarrow> StreamSession list \<Rightarrow> StreamSegment list
     \<Rightarrow> StreamSession option \<times> StreamSession list" where
  "sessionLoop currentSession sessions [] = (currentSession, sessions)"
| "sessionLoop currentSession sessions (segment # rest) =
     (let f = file' segment;
          isNewSession = (case currentSession of
                            None \<Rightarrow> True
                          | Some cs \<Rightarrow> title f \<noteq> sessionTitle cs
                                        \<or> StreamFile.timestamp f - endTime cs > 60 * 60 * 1000)
      in if isNewSession
         then sessionLoop
                (Some \<lparr>sessionId = (roomId f, StreamFile.timestamp f), sessionRoomId = roomId f,
                       sessionStreamerName = streamerName f, sessionTitle = title f,
                       startTime = StreamFile.timestamp f, endTime = StreamFile.timestamp f,
                       segments = [segment], sessionTotalDuration = duration segment,
                       totalDanmakuCount = danmakuCount segment\<rparr>)
                (case currentSession of None \<Rightarrow> sessions | Some cs \<Rightarrow> sessions @ [cs])
                rest
         else (case currentSession of
                 None \<Rightarrow> sessionLoop currentSession sessions rest
               | Some cs \<Rightarrow>
                   sessionLoop
                     (Some (cs\<lparr>segments := segments cs @ [segment],
                               endTime := StreamFile.timestamp f,
                               sessionTotalDuration := sessionTotalDuration cs + duration segment,
                               totalDanmakuCount := totalDanmakuCount cs + danmakuCount segment\<rparr>))
                     sessions rest))"

definition buildSessions :: "StreamSegment list \<Rightarrow> StreamSession list" where
  "buildSessions streamerSegments =
     (case sessionLoop None [] streamerSegments of
        (currentSession, sessions) \<Rightarrow>
          (case currentSession of None \<Rightarrow> sessions | Some cs \<Rightarrow> sessions @ [cs]))"

definition sortSessions :: "StreamSession list \<Rightarrow> StreamSession list" where
  "sortSessions sessions = arraySort (\<lambda>a b. real_of_int (startTime b - startTime a)) sessions"

text \<open>
  The index of the session that holds the \<open>i\<close>-th file, and the test between two consecutive files.
\<close>

fun groupOf :: "'a list list \<Rightarrow> nat \<Rightarrow> nat" where
  "groupOf [] i = 0"
| "groupOf (g # gs) i = (if i < length g then 0 else Suc (groupOf gs (i - length g)))"

definition sessionOf :: "StreamSession list \<Rightarrow> nat \<Rightarrow> nat" where
  "sessionOf sessions i = groupOf (map segments sessions) i"

definition startsNewSession :: "StreamSegment \<Rightarrow> StreamSegment \<Rightarrow> bool" where
  "startsNewSession prev next =
     (title (file' next) \<noteq> title (file' prev)
        \<or> StreamFile.timestamp (file' next) - StreamFile.timestamp (file' prev) > 3600000)"

fun groupsFrom :: "StreamSegment list \<Rightarrow> StreamSegment list \<Rightarrow> StreamSegment list list" where
  "groupsFrom g [] = [g]"
| "groupsFrom g (x # xs) =
     (if startsNewSession (last g) x then g # groupsFrom [x] xs else groupsFrom (g @ [x]) xs)"

definition mkSegment :: "int \<Rightarrow> jsstring \<Rightarrow> real \<Rightarrow> StreamSegment" where
  "mkSegment ts ttl dur = \<lparr>file' = (mkFile ts)\<lparr>title := ttl\<rparr>, duration = dur, danmakuCount = 0\<rparr>"

definition groupDemo :: "StreamSegment list" where
  "groupDemo = [mkSegment 0 [0x41] 1800, mkSegment 1800000 [0x41] 1800,
                mkSegment 6000000 [0x41] 600, mkSegment 6600000 [0x42] 600]"

definition gapDemo :: "StreamSegment list" where
  "gapDemo = [mkSegment 0 [0x41] 1800, mkSegment 3700000 [0x41] 1800]"

lemma sessionLoop_groups:
  assumes "segments cs \<noteq> []"
    and "sessionTitle cs = title (file' (last (segments cs)))"
    and "endTime cs = StreamFile.timestamp (file' (last (segments cs)))"
  shows "\<exists>cs' out. sessionLoop (Some cs) acc rest = (Some cs', out)
           \<and> map segments (out @ [cs']) = map segments acc @ groupsFrom (segments cs) rest"
  using assms
proof (induction rest arbitrary: cs acc)
  case Nil
  then show ?case by simp
next
  case (Cons x rest)
  show ?case
  proof (cases "startsNewSession (last (segments cs)) x")
    case True
    define ns where "ns = \<lparr>sessionId = (roomId (file' x), StreamFile.timestamp (file' x)),
        sessionRoomId = roomId (file' x), sessionStreamerName = streamerName (file' x),
        sessionTitle = title (file' x), startTime = StreamFile.timestamp (file' x),
        endTime = StreamFile.timestamp (file' x), segments = [x],
        sessionTotalDuration = duration x, totalDanmakuCount = danmakuCount x\<rparr>"
    have step: "sessionLoop (Some cs) acc (x # rest) = sessionLoop (Some ns) (acc @ [cs]) rest"
      using True Cons.prems by (simp add: startsNewSession_def ns_def Let_def)
    have "\<exists>cs' out. sessionLoop (Some ns) (acc @ [cs]) rest = (Some cs', out)
           \<and> map segments (out @ [cs']) = map segments (acc @ [cs]) @ groupsFrom (segments ns) rest"
      by (rule Cons.IH) (simp_all add: ns_def)
    with step True show ?thesis by (simp add: ns_def)
  next
    case False
    define us where "us = cs\<lparr>segments := segments cs @ [x],
        endTime := StreamFile.timestamp (file' x),
        sessionTotalDuration := sessionTotalDuration cs + duration x,
        totalDanmakuCount := totalDanmakuCount cs + danmakuCount x\<rparr>"
    have step: "sessionLoop (Some cs) acc (x # rest) = sessionLoop (Some us) acc rest"
      using False Cons.prems by (simp add: startsNewSession_def us_def Let_def)
    have "\<exists>cs' out. sessionLoop (Some us) acc rest = (Some cs', out)
           \<and> map segments (out @ [cs']) = map segments acc @ groupsFrom (segments us) rest"
      using False Cons.prems by (intro Cons.IH) (simp_all add: us_def startsNewSession_def)
    with step False show ?thesis by (simp add: us_def)
  qed
qed

lemma buildSessions_groups:
  "map segments (buildSessions (x # xs)) = groupsFrom [x] xs"
proof -
  define ns where "ns = \<lparr>sessionId = (roomId (file' x), StreamFile.timestamp (file' x)),
        sessionRoomId = roomId (file' x), sessionStreamerName = streamerName (file' x),
        sessionTitle = title (file' x), startTime = StreamFile.timestamp (file' x),
        endTime = StreamFile.timestamp (file' x), segments = [x],
        sessionTotalDuration = duration x, totalDanmakuCount = danmakuCount x\<rparr>"
  have step: "sessionLoop None [] (x # xs) = sessionLoop (Some ns) [] xs"
    by (simp add: ns_def Let_def)
  have "\<exists>cs' out. sessionLoop (Some ns) [] xs = (Some cs', out)
           \<and> map segments (out @ [cs']) = map segments [] @ groupsFrom (segments ns) xs"
    using sessionLoop_groups [of ns "[]" xs] by (simp add: ns_def)
  with step show ?thesis by (auto simp: buildSessions_def ns_def)
qed

lemma groupsFrom_concat: "concat (groupsFrom g xs) = g @ xs"
  by (induction xs arbitrary: g) simp_all

lemma groupsFrom_nonempty: "g \<noteq> [] \<Longrightarrow> \<forall>h \<in> set (groupsFrom g xs). h \<noteq> []"
  by (induction xs arbitrary: g) auto

lemma groupOf_first: "i < length g \<Longrightarrow> groupOf (groupsFrom g xs) i = 0"
  by (induction xs arbitrary: g) (simp_all add: less_Suc_eq)

lemma groupsFrom_boundaries:
  "g \<noteq> [] \<Longrightarrow> Suc i < length (g @ xs) \<Longrightarrow>
     (groupOf (groupsFrom g xs) i = groupOf (groupsFrom g xs) (Suc i)
        \<longleftrightarrow> Suc i < length g \<or> \<not> startsNewSession ((g @ xs) ! i) ((g @ xs) ! Suc i))"
proof (induction xs arbitrary: g i)
  case Nil
  then show ?case by simp
next
  case (Cons x xs)
  show ?case
  proof (cases "startsNewSession (last g) x")
    case True
    consider "Suc i < length g" | "Suc i = length g" | "length g \<le> i" by linarith
    then show ?thesis
    proof cases
      case 1
      with True show ?thesis by simp
    next
      case 2
      then have "i = length g - 1" by simp
      with 2 have "(g @ x # xs) ! i = last g" "(g @ x # xs) ! Suc i = x"
        using Cons.prems(1) by (simp_all add: nth_append last_conv_nth)
      with True 2 show ?thesis by simp
    next
      case 3
      define k where "k = i - length g"
      from 3 Cons.prems(2) have k: "Suc k < length ([x] @ xs)" "i = length g + k"
        by (simp_all add: k_def)
      from Cons.IH [of "[x]" k] k(1)
      have "groupOf (groupsFrom [x] xs) k = groupOf (groupsFrom [x] xs) (Suc k)
              \<longleftrightarrow> \<not> startsNewSession (([x] @ xs) ! k) (([x] @ xs) ! Suc k)"
        by simp
      moreover have "(g @ x # xs) ! i = ([x] @ xs) ! k" "(g @ x # xs) ! Suc i = ([x] @ xs) ! Suc k"
        using k(2) by (simp_all add: nth_append)
      ultimately show ?thesis using True 3 k(2) by simp
    qed
  next
    case False
    from Cons.prems have "Suc i < length ((g @ [x]) @ xs)" by simp
    from Cons.IH [of "g @ [x]" i, OF _ this]
    have ih: "groupOf (groupsFrom (g @ [x]) xs) i = groupOf (groupsFrom (g @ [x]) xs) (Suc i)
              \<longleftrightarrow> Suc i < Suc (length g) \<or> \<not> startsNewSession ((g @ x # xs) ! i) ((g @ x # xs) ! Suc i)"
      by simp
    consider "Suc i < length g" | "Suc i = length g" | "length g \<le> i" by linarith
    then show ?thesis
    proof cases
      case 1
      with False ih show ?thesis by simp
    next
      case 2
      then have "i = length g - 1" by simp
      with 2 have "(g @ x # xs) ! i = last g" "(g @ x # xs) ! Suc i = x"
        using Cons.prems(1) by (simp_all add: nth_append last_conv_nth)
      with False 2 ih show ?thesis by simp
    next
      case 3
      with False ih show ?thesis by simp
    qed
  qed
qed

lemma groupDemo_sessions:
  "map segments (buildSessions groupDemo)
     = [[mkSegment 0 [0x41] 1800, mkSegment 1800000 [0x41] 1800],
        [mkSegment 6000000 [0x41] 600], [mkSegment 6600000 [0x42] 600]]"
  by (simp add: buildSessions_def groupDemo_def mkSegment_def mkFile_def Let_def)

lemma gapDemo_sessions:
  "map segments (buildSessions gapDemo) = [[mkSegment 0 [0x41] 1800], [mkSegment 3700000 [0x41] 1800]]"
  by (simp add: buildSessions_def gapDemo_def mkSegment_def mkFile_def Let_def)

section \<open>Claims about the grouping\<close>

text \<open>
  C7 (session grouping), as the code computes it. Every file is in exactly one session,
  in order, and two consecutive files are in the same session if and only if the title is
  unchanged and the next file's timestamp is at most 3600 seconds after the previous
  file's timestamp (the start of the previous file, which is what \<^verbatim>\<open>endTime\<close> holds).
  The final sort of the sessions only reorders them.
\<close>

theorem session_grouping:
  fixes streamerSegments :: "StreamSegment list"
  defines "sessions \<equiv> buildSessions streamerSegments"
  shows "concat (map segments sessions) = streamerSegments
       \<and> (\<forall>s \<in> set sessions. segments s \<noteq> [])
       \<and> (\<forall>i. Suc i < length streamerSegments \<longrightarrow>
            (sessionOf sessions i = sessionOf sessions (Suc i)
               \<longleftrightarrow> title (file' (streamerSegments ! Suc i)) = title (file' (streamerSegments ! i))
                   \<and> StreamFile.timestamp (file' (streamerSegments ! Suc i))
                        - StreamFile.timestamp (file' (streamerSegments ! i)) \<le> 3600000))
       \<and> mset (sortSessions sessions) = mset sessions"
proof (cases streamerSegments)
  case Nil
  then show ?thesis by (simp add: sessions_def buildSessions_def sortSessions_def mset_arraySort)
next
  case (Cons x xs)
  have g: "map segments sessions = groupsFrom [x] xs"
    by (simp add: sessions_def Cons buildSessions_groups)
  have a: "concat (map segments sessions) = streamerSegments"
    by (simp add: g groupsFrom_concat Cons)
  have "\<forall>h \<in> set (map segments sessions). h \<noteq> []"
    unfolding g by (rule groupsFrom_nonempty) simp
  then have b: "\<forall>s \<in> set sessions. segments s \<noteq> []" by simp
  have c: "\<forall>i. Suc i < length streamerSegments \<longrightarrow>
            (sessionOf sessions i = sessionOf sessions (Suc i)
               \<longleftrightarrow> title (file' (streamerSegments ! Suc i)) = title (file' (streamerSegments ! i))
                   \<and> StreamFile.timestamp (file' (streamerSegments ! Suc i))
                        - StreamFile.timestamp (file' (streamerSegments ! i)) \<le> 3600000)"
  proof (intro allI impI)
    fix i assume "Suc i < length streamerSegments"
    then have "Suc i < length ([x] @ xs)" by (simp add: Cons)
    from groupsFrom_boundaries [OF _ this] this
    show "sessionOf sessions i = sessionOf sessions (Suc i)
               \<longleftrightarrow> title (file' (streamerSegments ! Suc i)) = title (file' (streamerSegments ! i))
                   \<and> StreamFile.timestamp (file' (streamerSegments ! Suc i))
                        - StreamFile.timestamp (file' (streamerSegments ! i)) \<le> 3600000"
      unfolding sessionOf_def g Cons by (auto simp: startsNewSession_def)
  qed
  have d: "mset (sortSessions sessions) = mset sessions"
    by (simp add: sortSessions_def mset_arraySort)
  from a b c d show ?thesis by blast
qed

theorem session_grouping_witness:
  "sessionOf (buildSessions groupDemo) 0 = sessionOf (buildSessions groupDemo) 1
   \<and> sessionOf (buildSessions groupDemo) 1 \<noteq> sessionOf (buildSessions groupDemo) 2
   \<and> sessionOf (buildSessions groupDemo) 2 \<noteq> sessionOf (buildSessions groupDemo) 3
   \<and> concat (map segments (buildSessions groupDemo)) = groupDemo"
proof -
  have len: "length groupDemo = 4" by (simp add: groupDemo_def)
  note inst = session_grouping [of groupDemo]
  from inst have c: "concat (map segments (buildSessions groupDemo)) = groupDemo" by blast
  from inst have b: "Suc i < length groupDemo \<Longrightarrow>
      (sessionOf (buildSessions groupDemo) i = sessionOf (buildSessions groupDemo) (Suc i)
         \<longleftrightarrow> title (file' (groupDemo ! Suc i)) = title (file' (groupDemo ! i))
             \<and> StreamFile.timestamp (file' (groupDemo ! Suc i))
                  - StreamFile.timestamp (file' (groupDemo ! i)) \<le> 3600000)" for i
    by blast
  from b [of 0] b [of 1] b [of 2] len c show ?thesis
    by (simp add: groupDemo_def mkSegment_def mkFile_def numeral_2_eq_2 numeral_3_eq_3)
qed

text \<open>
  A file that starts at 0 and lasts 1800 seconds, followed by a file of the same title
  that starts at 3700 seconds: the gap from the first file's end is 1900 seconds, and the
  second file starts a new session.
\<close>

theorem session_gap_from_start_counterexample:
  "title (file' (gapDemo ! 1)) = title (file' (gapDemo ! 0))
   \<and> real_of_int (StreamFile.timestamp (file' (gapDemo ! 1))) / 1000
        - (real_of_int (StreamFile.timestamp (file' (gapDemo ! 0))) / 1000 + duration (gapDemo ! 0)) \<le> 3600
   \<and> sessionOf (buildSessions gapDemo) 0 \<noteq> sessionOf (buildSessions gapDemo) 1"
  by (simp add: sessionOf_def gapDemo_sessions) (simp add: gapDemo_def mkSegment_def mkFile_def)

end
